theory Spec2Isabelle
  imports
    Complex_Main
    "HOL-Library.Char_ord"
    "HOL-Library.List_Lexorder"
    "HOL-Library.Sublist"
    "HOL-Library.Word"
begin

section \<open>stitch\_videos.py: narrations stitched into a video\<close>

text \<open>
  A shallow embedding of \<^verbatim>\<open>stitch_videos.py\<close>. Python exceptions are values of
  \<open>py_error\<close>, a function that may raise returns \<open>py_error + 'a\<close>. Times are
  rationals, in seconds. The two divisions of the cursor clip (lines 22 and 26), which
  decide the sample that is drawn, round to the nearest double as Python's floats do;
  the cuts of \<^verbatim>\<open>stitch_video_audio\<close> are computed exactly. Strings are byte lists,
  compared as Python compares \<^verbatim>\<open>str\<close> (lexicographically, by character code). Paths
  are POSIX paths.
\<close>

datatype py_error =
  AssertionError | ValueError | ZeroDivisionError | IndexError | OverflowError
  | UnboundLocalError | AttributeError | SystemExit

subsection \<open>Strings and paths (\<^verbatim>\<open>str.endswith\<close>, \<^verbatim>\<open>os.path\<close>, \<^verbatim>\<open>int\<close>)\<close>

definition endswith :: "string \<Rightarrow> string \<Rightarrow> bool" where
  "endswith s suf \<longleftrightarrow> suffix suf s"

text \<open>\<^verbatim>\<open>posixpath.join(a, b)\<close>: an absolute \<open>b\<close> replaces \<open>a\<close>; a separator is
  added unless \<open>a\<close> is empty or already ends with one.\<close>

definition join :: "string \<Rightarrow> string \<Rightarrow> string" where
  "join a b =
     (if prefix ''/'' b then b
      else if a = [] \<or> endswith a ''/'' then a @ b
      else a @ ''/'' @ b)"

text \<open>\<^verbatim>\<open>posixpath.basename(p)\<close>: what follows the last separator.\<close>

definition basename :: "string \<Rightarrow> string" where
  "basename p = rev (takeWhile (\<lambda>c. c \<noteq> CHR ''/'') (rev p))"

text \<open>\<^verbatim>\<open>posixpath.splitext(p)\<close>: the path is cut at the last dot of its last
  component, unless that component has no dot or only dots before its last dot.\<close>

definition splitext :: "string \<Rightarrow> string \<times> string" where
  "splitext p =
     (let name = basename p;
          ext = rev (takeWhile (\<lambda>c. c \<noteq> CHR ''.'') (rev name));
          lead = take (length name - length ext - 1) name
      in if CHR ''.'' \<in> set name \<and> filter (\<lambda>c. c \<noteq> CHR ''.'') lead \<noteq> []
         then (take (length p - length ext - 1) p, drop (length p - length ext - 1) p)
         else (p, []))"

text \<open>\<^verbatim>\<open>os.path.splitext(os.path.basename(f))[0]\<close>, the base name of a path.\<close>

definition base_name :: "string \<Rightarrow> string" where
  "base_name f = fst (splitext (basename f))"

definition is_digit :: "char \<Rightarrow> bool" where
  "is_digit c \<longleftrightarrow> CHR ''0'' \<le> c \<and> c \<le> CHR ''9''"

definition digit_val :: "char \<Rightarrow> int" where
  "digit_val c = of_char c - 48"

definition decimal :: "string \<Rightarrow> int" where
  "decimal ds = foldl (\<lambda>n c. 10 * n + digit_val c) 0 ds"

text \<open>\<^verbatim>\<open>int(s)\<close> for a string: an optional sign and decimal digits; anything else
  raises \<^verbatim>\<open>ValueError\<close>. (Python also accepts surrounding white space, single
  underscores between digits and non-ASCII digits; file names of that form are outside
  this model, and no result below is about them.)\<close>

definition int_of_str :: "string \<Rightarrow> py_error + int" where
  "int_of_str s =
     (let neg = prefix ''-'' s;
          ds = (if prefix ''-'' s \<or> prefix ''+'' s then tl s else s)
      in if ds \<noteq> [] \<and> list_all is_digit ds
         then Inr (if neg then - decimal ds else decimal ds)
         else Inl ValueError)"

subsection \<open>The narration directory (lines 40--45)\<close>

type_synonym point = "rat \<times> rat"

text \<open>What the program reads from the file system: the names \<^verbatim>\<open>os.listdir\<close>
  returns (in any order), the duration \<^verbatim>\<open>AudioFileClip(path).duration\<close> of an audio
  file and the list \<^verbatim>\<open>json.load\<close> returns for a trajectory file. Files are taken to
  be readable.\<close>

record directory =
  listdir :: "string list"
  audio_duration :: "string \<Rightarrow> rat"
  json_load :: "string \<Rightarrow> point list"

definition audio_files_of :: "string \<Rightarrow> string list \<Rightarrow> string list" where
  "audio_files_of audio_dir names =
     sort (map (join audio_dir) (filter (\<lambda>f. endswith f ''.wav'') names))"

definition json_files_of :: "string \<Rightarrow> string list \<Rightarrow> string list" where
  "json_files_of audio_dir names =
     sort (map (join audio_dir) (filter (\<lambda>f. endswith f ''.json'') names))"

text \<open>The condition of the \<^verbatim>\<open>assert\<close> of line 45.\<close>

definition names_match :: "string list \<Rightarrow> string list \<Rightarrow> bool" where
  "names_match audio_files json_files \<longleftrightarrow>
     set (map base_name audio_files) = set (map base_name json_files)"

subsection \<open>Images and the cursor overlay (class \<^verbatim>\<open>CursorClip\<close>, lines 19--36)\<close>

type_synonym pixel = "8 word \<times> 8 word \<times> 8 word"

text \<open>An image is its pixels, by column and row.\<close>

type_synonym image = "int \<times> int \<Rightarrow> pixel"

type_synonym box = "rat \<times> rat \<times> rat \<times> rat"

text \<open>PIL's rasteriser is not part of the program: which pixels the ellipse of a
  bounding box covers is a parameter of the model.\<close>

type_synonym raster = "box \<Rightarrow> int \<times> int \<Rightarrow> bool"

definition red :: pixel where
  "red = (255, 0, 0)"

text \<open>\<^verbatim>\<open>ImageDraw.Draw(img).ellipse(box, fill=colour)\<close>: the covered pixels take the
  colour, in place.\<close>

definition ellipse :: "raster \<Rightarrow> image \<Rightarrow> box \<Rightarrow> pixel \<Rightarrow> image" where
  "ellipse covers img b colour = (\<lambda>p. if covers b p then colour else img p)"

text \<open>
  A float: a finite double is the rational it denotes, \<open>Infinity\<close> is an infinite result
  of either sign. (The divisions modelled here never give a NaN.)
\<close>

datatype pyfloat = Finite rat | Infinity

definition pow2 :: "int \<Rightarrow> rat" where
  "pow2 k = (if 0 \<le> k then 2 ^ nat k else 1 / 2 ^ nat (- k))"

text \<open>The number of binary digits of a positive integer.\<close>

function bit_length :: "int \<Rightarrow> int" where
  "bit_length n = (if n \<le> 0 then 0 else 1 + bit_length (n div 2))"
  by pat_completeness auto
termination
  by (relation "measure nat") auto

text \<open>The binary exponent of a positive rational \<open>a\<close>: the \<open>e\<close> with
  \<open>2 ^ e \<le> a < 2 ^ (e + 1)\<close>. The difference of the bit lengths of numerator and
  denominator is \<open>e\<close> or \<open>e + 1\<close>.\<close>

definition ilog2 :: "rat \<Rightarrow> int" where
  "ilog2 a =
     (case quotient_of a of (p, q) \<Rightarrow>
        let k = bit_length p - bit_length q
        in if pow2 k \<le> a then k else k - 1)"

text \<open>Rounding a non-negative rational to the nearest integer, a tie to the even one.\<close>

definition round_half_even :: "rat \<Rightarrow> int" where
  "round_half_even y =
     (let f = \<lfloor>y\<rfloor>; r = y - of_int f
      in if r < 1 / 2 then f else if 1 / 2 < r then f + 1 else if even f then f else f + 1)"

text \<open>\<open>2 ^ 1024\<close>, the least magnitude that is no finite double.\<close>

definition double_overflow :: rat where
  "double_overflow = 179769313486231590772930519078902473361797697894230657273430081157732675805500963132708477322407536021120113879871393357658789768814416622492847430639474124377767893424865485276302219601246094119453082952085005768838150682342462881473913110540827237163350510684586298239947245938479716304835356329624224137216"

text \<open>IEEE 754 binary64, round to nearest, ties to even: a multiple of the unit in the
  last place, which is \<open>2 ^ (e - 52)\<close> for a value of binary exponent \<open>e\<close> and
  \<open>2 ^ - 1074\<close> for the subnormal ones; a result of \<open>2 ^ 1024\<close> or more is infinite.\<close>

definition round_double :: "rat \<Rightarrow> pyfloat" where
  "round_double x =
     (if x = 0 then Finite 0
      else
        let a = \<bar>x\<bar>;
            q = max (ilog2 a - 52) (- 1074);
            r = of_int (round_half_even (a / pow2 q)) * pow2 q
        in if double_overflow \<le> r then Infinity else Finite (if x < 0 then - r else r))"

text \<open>\<^verbatim>\<open>a / b\<close> for a finite \<open>a\<close> and a float \<open>b\<close>.\<close>

definition float_div :: "rat \<Rightarrow> pyfloat \<Rightarrow> py_error + pyfloat" where
  "float_div a b =
     (case b of
        Finite d \<Rightarrow> if d = 0 then Inl ZeroDivisionError else Inr (round_double (a / d))
      | Infinity \<Rightarrow> Inr (Finite 0))"

text \<open>\<^verbatim>\<open>int(x)\<close> for a float truncates towards zero; an infinite float raises.\<close>

definition int_of_float :: "pyfloat \<Rightarrow> py_error + int" where
  "int_of_float x =
     (case x of
        Finite q \<Rightarrow> Inr (if 0 \<le> q then \<lfloor>q\<rfloor> else \<lceil>q\<rceil>)
      | Infinity \<Rightarrow> Inl OverflowError)"

record CursorClip =
  trajectory :: "point list"
  cursor_duration :: pyfloat
  frame :: image
  duration :: rat

text \<open>\<^verbatim>\<open>xs[i]\<close>: a negative index counts from the end.\<close>

definition getitem :: "'a list \<Rightarrow> int \<Rightarrow> py_error + 'a" where
  "getitem xs i =
     (if 0 \<le> i \<and> i < int (length xs) then Inr (xs ! nat i)
      else if i < 0 \<and> - int (length xs) \<le> i then Inr (xs ! nat (int (length xs) + i))
      else Inl IndexError)"

text \<open>Line 26, \<^verbatim>\<open>i = int(t / self.cursor_duration)\<close>.\<close>

definition frame_index :: "CursorClip \<Rightarrow> rat \<Rightarrow> py_error + int" where
  "frame_index self t =
     (case float_div t (cursor_duration self) of
        Inl e \<Rightarrow> Inl e
      | Inr q \<Rightarrow> int_of_float q)"

text \<open>\<^verbatim>\<open>make_frame(t)\<close>: the image returned and the clip whose \<^verbatim>\<open>self.frame\<close> has
  been drawn on. The returned array is a copy of the buffer as it is after the call.\<close>

definition make_frame :: "raster \<Rightarrow> CursorClip \<Rightarrow> rat \<Rightarrow> py_error + (image \<times> CursorClip)" where
  "make_frame covers self t =
     (case frame_index self t of
        Inl e \<Rightarrow> Inl e
      | Inr i \<Rightarrow>
          if i < int (length (trajectory self)) then
            (case getitem (trajectory self) i of
               Inl e \<Rightarrow> Inl e
             | Inr (x, y) \<Rightarrow>
                 let drawn = ellipse covers (frame self) (x - 5, y - 5, x + 5, y + 5) red
                 in Inr (drawn, self\<lparr>frame := drawn\<rparr>))
          else Inr (frame self, self))"

text \<open>\<^verbatim>\<open>CursorClip.__init__\<close>. Line 22 divides the duration by the length of the
  trajectory (an integer, which converts exactly). Line 36 hands \<^verbatim>\<open>make_frame\<close> to the
  constructor of the engine's \<^verbatim>\<open>VideoClip\<close>, which asks for the frame at time 0 to learn
  the size of the clip: \<^verbatim>\<open>make_frame(0)\<close> runs once, on the buffer. The width and the
  height the constructor is given are not used.\<close>

definition CursorClip_init ::
  "raster \<Rightarrow> image \<Rightarrow> point list \<Rightarrow> rat \<Rightarrow> py_error + CursorClip" where
  "CursorClip_init covers fr traj dur =
     (case float_div dur (Finite (of_nat (length traj))) of
        Inl e \<Rightarrow> Inl e
      | Inr cd \<Rightarrow>
          (case make_frame covers
                  \<lparr>trajectory = traj, cursor_duration = cd, frame = fr, duration = dur\<rparr> 0 of
             Inl e \<Rightarrow> Inl e
           | Inr (img, self) \<Rightarrow> Inr self))"

text \<open>The frames of one overlay, requested one after the other at the given times.\<close>

fun make_frames :: "raster \<Rightarrow> CursorClip \<Rightarrow> rat list \<Rightarrow> py_error + image list" where
  "make_frames covers self [] = Inr []"
| "make_frames covers self (t # ts) =
     (case make_frame covers self t of
        Inl e \<Rightarrow> Inl e
      | Inr (img, self') \<Rightarrow>
          (case make_frames covers self' ts of
             Inl e \<Rightarrow> Inl e
           | Inr imgs \<Rightarrow> Inr (img # imgs)))"

subsection \<open>The media engine\<close>

text \<open>
  The engine (moviepy 1.x) is a library, not part of the sources. Its clips are modelled
  by what the program observes of them. A video clip is a view of the source video
  between two source times. \<^verbatim>\<open>clip.subclip(t_start, t_end)\<close> follows the library: a
  negative time counts from the end of the clip, a start beyond the clip's duration
  raises \<^verbatim>\<open>ValueError\<close>, and the new clip lasts \<open>t_end - t_start\<close>.
\<close>

record video_clip =
  source_start :: rat
  source_end :: rat

definition clip_duration :: "video_clip \<Rightarrow> rat" where
  "clip_duration c = source_end c - source_start c"

definition subclip_times :: "rat \<Rightarrow> rat \<Rightarrow> rat \<Rightarrow> py_error + (rat \<times> rat)" where
  "subclip_times d t_start t_end =
     (let ts = (if t_start < 0 then d + t_start else t_start) in
      if ts > d then Inl ValueError
      else Inr (ts, if t_end < 0 then d + t_end else t_end))"

definition subclip :: "video_clip \<Rightarrow> rat \<Rightarrow> rat \<Rightarrow> py_error + video_clip" where
  "subclip c t_start t_end =
     (case subclip_times (clip_duration c) t_start t_end of
        Inl e \<Rightarrow> Inl e
      | Inr (ts, te) \<Rightarrow>
          Inr \<lparr>source_start = source_start c + ts, source_end = source_start c + te\<rparr>)"

text \<open>\<^verbatim>\<open>freeze(clip, t, freeze_duration)\<close> of the library concatenates
  \<^verbatim>\<open>clip.subclip(0, t)\<close> (when \<open>t \<noteq> 0\<close>), the still image and \<^verbatim>\<open>clip.subclip(t)\<close>
  (when \<open>t\<close> is not the clip's duration). The program only cuts a piece out of the result
  and never uses it, so the model keeps the duration of the result and the errors.\<close>

definition freeze :: "video_clip \<Rightarrow> rat \<Rightarrow> rat \<Rightarrow> py_error + rat" where
  "freeze c t freeze_duration =
     (case (if t \<noteq> 0 then subclip c 0 t else Inr \<lparr>source_start = 0, source_end = 0\<rparr>) of
        Inl e \<Rightarrow> Inl e
      | Inr head_clip \<Rightarrow>
          (case (if t \<noteq> clip_duration c then subclip c t (clip_duration c)
                 else Inr \<lparr>source_start = 0, source_end = 0\<rparr>) of
             Inl e \<Rightarrow> Inl e
           | Inr tail_clip \<Rightarrow>
              Inr (clip_duration head_clip + freeze_duration + clip_duration tail_clip)))"

text \<open>The loaded source video: its duration and its frame at a time.\<close>

record video_file =
  file_duration :: rat
  get_frame :: "rat \<Rightarrow> image"

text \<open>A clip of the output: a piece of the source video, or a cursor clip with the
  audio file it plays.\<close>

datatype clip = Video video_clip | Narration CursorClip string

fun duration_of :: "clip \<Rightarrow> rat" where
  "duration_of (Video c) = clip_duration c"
| "duration_of (Narration c a) = duration c"

text \<open>The duration of \<^verbatim>\<open>concatenate_videoclips(clips)\<close>.\<close>

definition concatenated_duration :: "clip list \<Rightarrow> rat" where
  "concatenated_duration clips = sum_list (map duration_of clips)"

subsection \<open>\<^verbatim>\<open>stitch_video_audio\<close> (lines 38--98)\<close>

text \<open>The local variables that live across the loops. \<open>clip2\<close> is \<open>None\<close> until it
  is assigned; \<open>Some None\<close> is Python's \<^verbatim>\<open>None\<close>.\<close>

record stitch_state =
  video :: video_clip
  clip2 :: "video_clip option option"
  final_clips :: "clip list"
  insertion_times :: "rat list"
  insertion_clips :: "clip list"

text \<open>The body of the first loop (lines 55--83), for one pair of the zipped lists.\<close>

definition first_loop_body ::
  "raster \<Rightarrow> directory \<Rightarrow> video_file \<Rightarrow> stitch_state \<Rightarrow> string \<times> string
     \<Rightarrow> py_error + stitch_state" where
  "first_loop_body covers fs vf l p =
     (case p of (audio_file, json_file) \<Rightarrow>
      (case int_of_str (base_name audio_file) of
         Inl e \<Rightarrow> Inl e
       | Inr ms \<Rightarrow>
          let insertion_time = of_int ms / 1000 in
          (case (if insertion_time < clip_duration (video l)
                 then (case subclip (video l) 0 insertion_time of
                         Inl e \<Rightarrow> Inl e
                       | Inr c1 \<Rightarrow>
                          (case subclip (video l) insertion_time (clip_duration (video l)) of
                             Inl e \<Rightarrow> Inl e
                           | Inr c2 \<Rightarrow> Inr (c1, Some c2)))
                 else Inr (video l, None)) of
             Inl e \<Rightarrow> Inl e
           | Inr (clip1, c2) \<Rightarrow>
              let freeze_time = audio_duration fs audio_file in
              (case freeze clip1 insertion_time freeze_time of
                 Inl e \<Rightarrow> Inl e
               | Inr frozen \<Rightarrow>
                  (case subclip_times frozen (clip_duration clip1)
                          (clip_duration clip1 + freeze_time) of
                     Inl e \<Rightarrow> Inl e
                   | Inr frozen_frame \<Rightarrow>
                      (case CursorClip_init covers (get_frame vf insertion_time)
                              (json_load fs json_file) (audio_duration fs audio_file) of
                         Inl e \<Rightarrow> Inl e
                       | Inr cursor_clip \<Rightarrow>
                          Inr (l\<lparr>clip2 := Some c2,
                                 insertion_clips :=
                                   insertion_clips l @ [Narration cursor_clip audio_file],
                                 insertion_times :=
                                   insertion_times l @ [insertion_time]\<rparr>)))))))"

fun first_loop ::
  "raster \<Rightarrow> directory \<Rightarrow> video_file \<Rightarrow> stitch_state \<Rightarrow> (string \<times> string) list
     \<Rightarrow> py_error + stitch_state" where
  "first_loop covers fs vf l [] = Inr l"
| "first_loop covers fs vf l (p # ps) =
     (case first_loop_body covers fs vf l p of
        Inl e \<Rightarrow> Inl e
      | Inr l' \<Rightarrow> first_loop covers fs vf l' ps)"

text \<open>Line 87.\<close>

definition relative_insertion_times :: "rat list \<Rightarrow> rat list" where
  "relative_insertion_times ts = [0] @ map (\<lambda>i. ts ! i - ts ! (i - 1)) [1..<length ts]"

text \<open>The body of the second loop (lines 89--93).\<close>

definition second_loop_body :: "stitch_state \<Rightarrow> rat \<times> clip \<Rightarrow> py_error + stitch_state" where
  "second_loop_body l p =
     (case p of (relative_insert_time, insertion_clip) \<Rightarrow>
      (case subclip (video l) 0 relative_insert_time of
         Inl e \<Rightarrow> Inl e
       | Inr clip1 \<Rightarrow>
          (case subclip (video l) relative_insert_time (clip_duration (video l)) of
             Inl e \<Rightarrow> Inl e
           | Inr c2 \<Rightarrow>
              Inr (l\<lparr>clip2 := Some (Some c2),
                     final_clips := final_clips l @ [Video clip1, insertion_clip],
                     video := c2\<rparr>))))"

fun second_loop :: "stitch_state \<Rightarrow> (rat \<times> clip) list \<Rightarrow> py_error + stitch_state" where
  "second_loop l [] = Inr l"
| "second_loop l (p # ps) =
     (case second_loop_body l p of
        Inl e \<Rightarrow> Inl e
      | Inr l' \<Rightarrow> second_loop l' ps)"

text \<open>The function, from the loaded video, the directory's path and its content to the
  list of clips that is concatenated and written. Reading \<open>clip2\<close> before it is assigned
  raises \<^verbatim>\<open>UnboundLocalError\<close>; the engine cannot concatenate \<^verbatim>\<open>None\<close>.\<close>

definition stitch_video_audio ::
  "raster \<Rightarrow> video_file \<Rightarrow> string \<Rightarrow> directory \<Rightarrow> py_error + clip list" where
  "stitch_video_audio covers vf audio_dir fs =
     (let audio_files = audio_files_of audio_dir (listdir fs);
          json_files = json_files_of audio_dir (listdir fs)
      in if \<not> names_match audio_files json_files then Inl AssertionError
         else
           (case first_loop covers fs vf
                   \<lparr>video = \<lparr>source_start = 0, source_end = file_duration vf\<rparr>,
                    clip2 = None, final_clips = [], insertion_times = [],
                    insertion_clips = []\<rparr>
                   (zip audio_files json_files) of
              Inl e \<Rightarrow> Inl e
            | Inr l1 \<Rightarrow>
               (case second_loop l1
                       (zip (relative_insertion_times (insertion_times l1))
                          (insertion_clips l1)) of
                  Inl e \<Rightarrow> Inl e
                | Inr l2 \<Rightarrow>
                   (case clip2 l2 of
                      None \<Rightarrow> Inl UnboundLocalError
                    | Some None \<Rightarrow> Inl AttributeError
                    | Some (Some c) \<Rightarrow> Inr (final_clips l2 @ [Video c])))))"

subsection \<open>The command line (lines 103--107)\<close>

record args =
  video_file :: "string option"
  narration_dir :: "string option"
  output_file :: "string option"

text \<open>\<^verbatim>\<open>parser.parse_args()\<close> for the three flags as they are declared: each takes one
  value, none is declared \<^verbatim>\<open>required\<close>, the default is \<^verbatim>\<open>None\<close>, a later occurrence
  overrides an earlier one. A usage error (and \<^verbatim>\<open>-h\<close>) leaves through
  \<^verbatim>\<open>SystemExit\<close>. The model reads command lines made of \<^verbatim>\<open>--flag value\<close> pairs whose
  values do not start with a dash; argparse's abbreviated flags, \<^verbatim>\<open>--flag=value\<close> and
  dash-led values are outside it.\<close>

fun parse_known :: "args \<Rightarrow> string list \<Rightarrow> py_error + args" where
  "parse_known a [] = Inr a"
| "parse_known a [flag] = Inl SystemExit"
| "parse_known a (flag # v # rest) =
     (if prefix ''-'' v then Inl SystemExit
      else if flag = ''--video-file'' then parse_known (a\<lparr>video_file := Some v\<rparr>) rest
      else if flag = ''--narration-dir'' then parse_known (a\<lparr>narration_dir := Some v\<rparr>) rest
      else if flag = ''--output-file'' then parse_known (a\<lparr>output_file := Some v\<rparr>) rest
      else Inl SystemExit)"

definition parse_args :: "string list \<Rightarrow> py_error + args" where
  "parse_args argv =
     parse_known \<lparr>video_file = None, narration_dir = None, output_file = None\<rparr> argv"

text \<open>A command line that gives the flags that are present, in the order of the usage
  message.\<close>

definition command_line :: "string option \<Rightarrow> string option \<Rightarrow> string option \<Rightarrow> string list" where
  "command_line v n outp =
     (case v of None \<Rightarrow> [] | Some x \<Rightarrow> [''--video-file'', x])
     @ (case n of None \<Rightarrow> [] | Some x \<Rightarrow> [''--narration-dir'', x])
     @ (case outp of None \<Rightarrow> [] | Some x \<Rightarrow> [''--output-file'', x])"

subsection \<open>Notions of the specification\<close>

text \<open>The sample index of the specification, \<open>floor (t / (D / L))\<close>, for a trajectory
  of length \<open>L\<close> and a duration \<open>D\<close>.\<close>

definition sample_index :: "rat \<Rightarrow> nat \<Rightarrow> rat \<Rightarrow> int" where
  "sample_index D L t = \<lfloor>t / (D / of_nat L)\<rfloor>"

text \<open>The same quotient as the program computes it: each of the two divisions is rounded
  to a double.\<close>

definition double_quotient :: "rat \<Rightarrow> nat \<Rightarrow> rat \<Rightarrow> pyfloat" where
  "double_quotient D L t =
     (case round_double (D / of_nat L) of
        Finite cd \<Rightarrow> round_double (t / cd)
      | Infinity \<Rightarrow> Finite 0)"

text \<open>The pixels of the marker that the frame at time \<open>t\<close> draws: the index of the
  program is within the trajectory and the ellipse around that point covers the pixel.\<close>

definition marked :: "raster \<Rightarrow> point list \<Rightarrow> rat \<Rightarrow> rat \<Rightarrow> int \<times> int \<Rightarrow> bool" where
  "marked covers traj D t p \<longleftrightarrow>
     (case double_quotient D (length traj) t of
        Finite q \<Rightarrow>
          \<lfloor>q\<rfloor> < int (length traj) \<and>
          (case traj ! nat \<lfloor>q\<rfloor> of (x, y) \<Rightarrow> covers (x - 5, y - 5, x + 5, y + 5) p)
      | Infinity \<Rightarrow> False)"

text \<open>The differences of neighbours, from a first value on.\<close>

fun differences :: "rat \<Rightarrow> rat list \<Rightarrow> rat list" where
  "differences a [] = []"
| "differences a (b # bs) = (b - a) # differences b bs"

text \<open>The narration built at lines 68--82 for an audio file, a trajectory file and an
  insertion time; the constructor has drawn the marker of the first point.\<close>

definition narration_of ::
  "raster \<Rightarrow> directory \<Rightarrow> video_file \<Rightarrow> rat \<Rightarrow> string \<times> string \<Rightarrow> clip" where
  "narration_of covers fs vf t p =
     (case p of (audio_file, json_file) \<Rightarrow>
        Narration
          \<lparr>trajectory = json_load fs json_file,
           cursor_duration =
             round_double
               (audio_duration fs audio_file / of_nat (length (json_load fs json_file))),
           frame =
             (case json_load fs json_file ! 0 of
                (x, y) \<Rightarrow> ellipse covers (get_frame vf t) (x - 5, y - 5, x + 5, y + 5) red),
           duration = audio_duration fs audio_file\<rparr>
          audio_file)"

text \<open>What \<^verbatim>\<open>os.path.join\<close> puts in front of a file name of the directory.\<close>

definition dir_prefix :: "string \<Rightarrow> string" where
  "dir_prefix d = (if d = [] \<or> endswith d ''/'' then d else d @ ''/'')"

text \<open>A flag that is absent, or given with a value that does not start with a dash.\<close>

definition plain :: "string option \<Rightarrow> bool" where
  "plain v \<longleftrightarrow> (case v of None \<Rightarrow> True | Some x \<Rightarrow> \<not> prefix ''-'' x)"

subsection \<open>Sample inputs\<close>

definition black :: image where
  "black = (\<lambda>p. (0, 0, 0))"

text \<open>A video of the given duration.\<close>

definition still_video :: "rat \<Rightarrow> video_file" where
  "still_video d = \<lparr>file_duration = d, get_frame = (\<lambda>t. black)\<rparr>"

text \<open>A directory with the given file names, where every audio file lasts two seconds
  and every trajectory has four points.\<close>

definition dir_of :: "string list \<Rightarrow> directory" where
  "dir_of names =
     \<lparr>listdir = names, audio_duration = (\<lambda>f. 2),
      json_load = (\<lambda>f. [(10, 10), (20, 10), (20, 20), (10, 20)])\<rparr>"

text \<open>The outline of a list of clips: the audio file of a narration, the source times
  of a piece of the video.\<close>

fun outline_of :: "clip \<Rightarrow> string + (rat \<times> rat)" where
  "outline_of (Video c) = Inr (source_start c, source_end c)"
| "outline_of (Narration c a) = Inl a"

definition outline :: "py_error + clip list \<Rightarrow> py_error + (string + (rat \<times> rat)) list" where
  "outline r = map_sum id (map outline_of) r"

text \<open>A rasteriser: the pixels within the circle inscribed in the box.\<close>

definition disc :: raster where
  "disc b p =
     (case b of (x0, y0, x1, y1) \<Rightarrow>
      case p of (px, py) \<Rightarrow>
        (2 * of_int px - (x0 + x1))\<^sup>2 + (2 * of_int py - (y0 + y1))\<^sup>2 \<le> (x1 - x0)\<^sup>2)"

section \<open>Relative cut times\<close>

text \<open>
  C1. The first relative cut time is the constant 0, not the first insertion time: for
  the insertion times 3 s and 5 s the relative times are 0 and 2, where the claim asks
  for 3 and 2.
\<close>

theorem relative_insertion_times_3_5:
  "relative_insertion_times [3, 5] = [0, 2]"
  by (simp add: relative_insertion_times_def)

text \<open>In general the first entry is 0 and every later entry is the difference of two
  neighbours.\<close>

lemma length_relative_insertion_times:
  "length (relative_insertion_times ts) = max 1 (length ts)"
  by (simp add: relative_insertion_times_def)

lemma relative_insertion_times_0: "relative_insertion_times ts ! 0 = 0"
  by (simp add: relative_insertion_times_def)

lemma relative_insertion_times_later:
  assumes "0 < i" and "i < length ts"
  shows "relative_insertion_times ts ! i = ts ! i - ts ! (i - 1)"
proof -
  from assms obtain j where j: "i = Suc j" "j < length ts - 1"
    by (cases i) auto
  then show ?thesis
    by (simp add: relative_insertion_times_def)
qed

section \<open>The timeline of a run\<close>

lemma outline_Inl: "outline r = Inl e \<longleftrightarrow> r = Inl e"
  by (cases r) (simp_all add: outline_def)

text \<open>
  C2. A 10 s video with narrations at 1000 ms and 2000 ms: the first overlay follows an
  empty piece of the video (the claim: the piece from 0 s to 1 s), the second follows
  the piece from 0 s to 1 s (the claim: from 1 s to 2 s).
\<close>

theorem timeline_1000_2000:
  "outline (stitch_video_audio disc (still_video 10) ''d''
      (dir_of [''1000.wav'', ''2000.wav'', ''1000.json'', ''2000.json'']))
   = Inr [Inr (0, 0), Inl ''d/1000.wav'', Inr (0, 1), Inl ''d/2000.wav'', Inr (1, 10)]"
  by code_simp

text \<open>File names are sorted as strings: the narration at 10000 ms comes before the one
  at 2000 ms.\<close>

lemma timeline_2000_10000:
  "outline (stitch_video_audio disc (still_video 20) ''d''
      (dir_of [''2000.wav'', ''10000.wav'', ''2000.json'', ''10000.json'']))
   = Inr [Inr (0, 0), Inl ''d/10000.wav'', Inr (0, 12), Inl ''d/2000.wav'', Inr (12, 20)]"
  by code_simp

text \<open>
  C3. A 60 s video with narrations at 2000 ms, 10000 ms and 30000 ms, all before the end
  of the video: the string order is 10000, 2000, 30000, the relative times are 0, -8 and
  28, and the last cut lies beyond the 8 s that are left: no output is produced.
\<close>

theorem run_2000_10000_30000:
  "stitch_video_audio disc (still_video 60) ''d''
      (dir_of [''2000.wav'', ''10000.wav'', ''30000.wav'',
               ''2000.json'', ''10000.json'', ''30000.json''])
   = Inl ValueError"
proof -
  have "outline (stitch_video_audio disc (still_video 60) ''d''
      (dir_of [''2000.wav'', ''10000.wav'', ''30000.wav'',
               ''2000.json'', ''10000.json'', ''30000.json'']))
    = Inl ValueError"
    by code_simp
  then show ?thesis
    by (simp only: outline_Inl)
qed

text \<open>
  C4. A 5 s video with one narration at 5000 ms, the duration of the video: the overlay
  is placed before the whole video, not after it.
\<close>

theorem timeline_5000:
  "outline (stitch_video_audio disc (still_video 5) ''d'' (dir_of [''5000.wav'', ''5000.json'']))
   = Inr [Inr (0, 0), Inl ''d/5000.wav'', Inr (0, 5)]"
  by code_simp

text \<open>With the narration at 6000 ms the run stops in the first loop, where the engine's
  \<^verbatim>\<open>freeze\<close> cuts the clip at a time beyond its end.\<close>

lemma run_6000:
  "stitch_video_audio disc (still_video 5) ''d'' (dir_of [''6000.wav'', ''6000.json''])
   = Inl ValueError"
proof -
  have "outline (stitch_video_audio disc (still_video 5) ''d''
      (dir_of [''6000.wav'', ''6000.json''])) = Inl ValueError"
    by code_simp
  then show ?thesis
    by (simp only: outline_Inl)
qed

section \<open>The cursor overlay\<close>

subsection \<open>Rounding keeps the sign\<close>

lemma double_overflow_power: "double_overflow = 2 ^ 1024"
  by (simp add: double_overflow_def)

lemma pow2_pos: "0 < pow2 k"
  by (simp add: pow2_def)

lemma round_half_even_nonneg:
  assumes "0 \<le> y"
  shows "0 \<le> round_half_even y"
proof -
  have "0 \<le> \<lfloor>y\<rfloor>"
    using assms by simp
  then show ?thesis
    by (simp add: round_half_even_def Let_def)
qed

lemma round_double_0: "round_double 0 = Finite 0"
  by (simp add: round_double_def)

lemma round_double_nonneg:
  assumes "0 \<le> x" and "round_double x = Finite r"
  shows "0 \<le> r"
proof (cases "x = 0")
  case True
  then show ?thesis
    using assms(2) by (simp add: round_double_0)
next
  case False
  define q where "q = max (ilog2 \<bar>x\<bar> - 52) (- 1074)"
  have "0 \<le> \<bar>x\<bar> / pow2 q"
    using pow2_pos [of q] by simp
  then have "0 \<le> round_half_even (\<bar>x\<bar> / pow2 q)"
    by (rule round_half_even_nonneg)
  then have "0 \<le> of_int (round_half_even (\<bar>x\<bar> / pow2 q)) * pow2 q"
    using pow2_pos [of q] by simp
  moreover have "r = of_int (round_half_even (\<bar>x\<bar> / pow2 q)) * pow2 q"
    using assms False by (simp add: round_double_def Let_def q_def split: if_splits)
  ultimately show ?thesis
    by simp
qed

subsection \<open>One frame\<close>

lemma getitem_nonneg: "0 \<le> i \<Longrightarrow> i < int (length xs) \<Longrightarrow> getitem xs i = Inr (xs ! nat i)"
  by (simp add: getitem_def)

lemma frame_index_error:
  "frame_index c t = Inl e \<Longrightarrow> e = ZeroDivisionError \<or> e = OverflowError"
  by (auto simp: frame_index_def float_div_def int_of_float_def
      split: sum.splits pyfloat.splits if_splits)

lemma getitem_error: "getitem xs i = Inl e \<Longrightarrow> e = IndexError"
  by (simp add: getitem_def split: if_splits)

lemma make_frame_error:
  assumes "make_frame covers c t = Inl e"
  shows "e = ZeroDivisionError \<or> e = OverflowError \<or> e = IndexError"
proof (cases "frame_index c t")
  case (Inl e')
  then have "e = e'"
    using assms by (simp add: make_frame_def)
  then show ?thesis
    using Inl frame_index_error [of c t e'] by blast
next
  case (Inr i)
  then show ?thesis
    using assms getitem_error [of "trajectory c" i e]
    by (auto simp: make_frame_def Let_def split: if_splits sum.splits prod.splits)
qed

lemma make_frame_Inr:
  assumes "make_frame covers c t = Inr (img, c')"
  shows "c' = c\<lparr>frame := img\<rparr>" and "cursor_duration c \<noteq> Finite 0"
proof -
  obtain i where i: "frame_index c t = Inr i"
    using assms by (cases "frame_index c t") (simp_all add: make_frame_def)
  show "c' = c\<lparr>frame := img\<rparr>"
    using assms i
    by (auto simp: make_frame_def Let_def split: if_splits sum.splits prod.splits)
  show "cursor_duration c \<noteq> Finite 0"
    using i by (auto simp: frame_index_def float_div_def)
qed

lemma CursorClip_init_Inr:
  assumes "CursorClip_init covers fr traj D = Inr c"
  shows "traj \<noteq> []" and "trajectory c = traj"
    and "cursor_duration c = round_double (D / of_nat (length traj))"
    and "cursor_duration c \<noteq> Finite 0" and "duration c = D"
proof -
  let ?cd = "round_double (D / of_nat (length traj))"
  let ?self = "\<lparr>trajectory = traj, cursor_duration = ?cd, frame = fr, duration = D\<rparr>"
  show nonempty: "traj \<noteq> []"
    using assms by (auto simp: CursorClip_init_def float_div_def)
  then have "float_div D (Finite (of_nat (length traj))) = Inr ?cd"
    by (simp add: float_div_def)
  then obtain img where first: "make_frame covers ?self 0 = Inr (img, c)"
    using assms by (auto simp: CursorClip_init_def split: sum.splits)
  from make_frame_Inr [OF first] have c: "c = ?self\<lparr>frame := img\<rparr>"
    and nz: "cursor_duration ?self \<noteq> Finite 0"
    by simp_all
  show "trajectory c = traj" and "cursor_duration c = ?cd" and "duration c = D"
    by (simp_all add: c)
  show "cursor_duration c \<noteq> Finite 0"
    using nz by (simp add: c)
qed

text \<open>One call of the frame producer, for a clip in any state of its buffer.\<close>

lemma make_frame_step:
  assumes c: "trajectory c = traj" "cursor_duration c = round_double (D / of_nat (length traj))"
      "cursor_duration c \<noteq> Finite 0" "traj \<noteq> []"
    and D: "0 < D" and t: "0 \<le> t"
  shows "make_frame covers c t =
     (case double_quotient D (length traj) t of
        Infinity \<Rightarrow> Inl OverflowError
      | Finite q \<Rightarrow>
          let i = \<lfloor>q\<rfloor> in
          if i < int (length traj)
          then (case traj ! nat i of (x, y) \<Rightarrow>
                  let drawn = ellipse covers (frame c) (x - 5, y - 5, x + 5, y + 5) red
                  in Inr (drawn, c\<lparr>frame := drawn\<rparr>))
          else Inr (frame c, c))"
proof -
  let ?L = "length traj"
  have quot: "float_div t (cursor_duration c) = Inr (double_quotient D ?L t)"
  proof (cases "round_double (D / of_nat ?L)")
    case (Finite v)
    have "0 \<le> D / of_nat ?L"
      using D by simp
    then have "0 \<le> v"
      using Finite by (rule round_double_nonneg)
    moreover have "v \<noteq> 0"
      using c(2,3) Finite by simp
    ultimately show ?thesis
      using c(2) Finite by (simp add: float_div_def double_quotient_def)
  next
    case Infinity
    then show ?thesis
      using c(2) by (simp add: float_div_def double_quotient_def)
  qed
  have nonneg: "0 \<le> q" if "double_quotient D ?L t = Finite q" for q
  proof (cases "round_double (D / of_nat ?L)")
    case (Finite v)
    have "0 \<le> D / of_nat ?L"
      using D by simp
    then have "0 \<le> v"
      using Finite by (rule round_double_nonneg)
    then have "0 \<le> t / v"
      using t by simp
    moreover have "round_double (t / v) = Finite q"
      using that Finite by (simp add: double_quotient_def)
    ultimately show ?thesis
      by (rule round_double_nonneg)
  next
    case Infinity
    then show ?thesis
      using that by (simp add: double_quotient_def)
  qed
  show ?thesis
  proof (cases "double_quotient D ?L t")
    case Infinity
    then show ?thesis
      using quot by (simp add: make_frame_def frame_index_def int_of_float_def)
  next
    case (Finite q)
    have q: "0 \<le> q"
      using Finite by (rule nonneg)
    then have i: "frame_index c t = Inr \<lfloor>q\<rfloor>"
      using quot Finite by (simp add: frame_index_def int_of_float_def)
    have i0: "0 \<le> \<lfloor>q\<rfloor>"
      using q by simp
    show ?thesis
    proof (cases "\<lfloor>q\<rfloor> < int ?L")
      case True
      then have "getitem traj \<lfloor>q\<rfloor> = Inr (traj ! nat \<lfloor>q\<rfloor>)"
        using i0 by (simp add: getitem_nonneg)
      then show ?thesis
        using True i c(1) Finite by (simp add: make_frame_def Let_def split: prod.splits)
    next
      case False
      then show ?thesis
        using i c(1) Finite by (simp add: make_frame_def Let_def)
    qed
  qed
qed

text \<open>
  C5. The exact index \<open>floor (t / (D / L))\<close> is not the index of the program: with
  \<open>D = 1\<close>, \<open>L = 3\<close> and the double \<open>t = 1 - 2 ^ - 53\<close> below \<open>D\<close>, the exact
  index is 2, and the program, whose two divisions round, finds the index 3 and draws
  nothing (line 29).
\<close>

theorem index_reaches_length:
  "0 \<le> (1 - 1 / 2 ^ 53 :: rat) \<and> (1 - 1 / 2 ^ 53 :: rat) < 1
   \<and> sample_index 1 3 (1 - 1 / 2 ^ 53) = 2
   \<and> map_sum id (\<lambda>c. frame_index c (1 - 1 / 2 ^ 53))
        (CursorClip_init disc black [(10, 10), (20, 10), (20, 20)] 1) = Inr (Inr 3)"
  by code_simp

text \<open>
  C5, amended. For a clip built from a trajectory of length \<open>L\<close> and a duration
  \<open>D > 0\<close>, whatever has been drawn on its buffer so far, the frame at a time
  \<open>t \<ge> 0\<close> uses the index \<open>floor q\<close>, where \<open>q\<close> is the quotient \<open>t / (D / L)\<close> with
  both divisions rounded to a double (an infinite \<open>q\<close> raises \<^verbatim>\<open>OverflowError\<close>): when the
  index is below \<open>L\<close> the marker is drawn around that point of the trajectory, on the
  buffer, and the buffer so drawn is returned and kept; otherwise nothing is drawn and the
  buffer is returned as it is.
\<close>

theorem make_frame_index:
  assumes "CursorClip_init covers fr traj D = Inr c" and "0 < D" and "0 \<le> t"
  shows "make_frame covers (c\<lparr>frame := buf\<rparr>) t =
           (case double_quotient D (length traj) t of
              Infinity \<Rightarrow> Inl OverflowError
            | Finite q \<Rightarrow>
                let i = \<lfloor>q\<rfloor> in
                if i < int (length traj)
                then (case traj ! nat i of (x, y) \<Rightarrow>
                        let drawn = ellipse covers buf (x - 5, y - 5, x + 5, y + 5) red
                        in Inr (drawn, c\<lparr>frame := drawn\<rparr>))
                else Inr (buf, c\<lparr>frame := buf\<rparr>))"
proof -
  note init = CursorClip_init_Inr [OF assms(1)]
  have "make_frame covers (c\<lparr>frame := buf\<rparr>) t =
     (case double_quotient D (length traj) t of
        Infinity \<Rightarrow> Inl OverflowError
      | Finite q \<Rightarrow>
          let i = \<lfloor>q\<rfloor> in
          if i < int (length traj)
          then (case traj ! nat i of (x, y) \<Rightarrow>
                  let drawn = ellipse covers (frame (c\<lparr>frame := buf\<rparr>))
                                (x - 5, y - 5, x + 5, y + 5) red
                  in Inr (drawn, c\<lparr>frame := buf\<rparr>\<lparr>frame := drawn\<rparr>))
          else Inr (frame (c\<lparr>frame := buf\<rparr>), c\<lparr>frame := buf\<rparr>))"
    by (rule make_frame_step) (use init assms in simp_all)
  then show ?thesis
    by (simp add: Let_def split: prod.split pyfloat.split)
qed

lemma round_double_1: "round_double 1 = Finite 1"
  by code_simp

lemma double_quotient_ex:
  "double_quotient 2 (Suc (Suc 0)) 0 = Finite 0"
  "double_quotient 2 (Suc (Suc 0)) (3 / 2) = Finite (3 / 2)"
  by code_simp+

lemma floor_three_halves: "\<lfloor>3 / 2 :: rat\<rfloor> = 1"
  by (simp add: floor_eq_iff)

lemma init_ex:
  "CursorClip_init disc black [(10, 10), (20, 10)] 2
   = Inr \<lparr>trajectory = [(10, 10), (20, 10)], cursor_duration = Finite 1,
          frame = ellipse disc black (5, 5, 15, 15) red, duration = 2\<rparr>"
  by (simp add: CursorClip_init_def float_div_def make_frame_def frame_index_def
      int_of_float_def getitem_def round_double_0 round_double_1 Let_def)

theorem make_frame_index_witness:
  "make_frame disc
       \<lparr>trajectory = [(10, 10), (20, 10)], cursor_duration = Finite 1, frame = black,
        duration = 2\<rparr>
       (3 / 2)
     = Inr (ellipse disc black (15, 5, 25, 15) red,
            \<lparr>trajectory = [(10, 10), (20, 10)], cursor_duration = Finite 1,
             frame = ellipse disc black (15, 5, 25, 15) red, duration = 2\<rparr>)"
  using make_frame_index [OF init_ex, of "3 / 2" black]
  by (simp add: double_quotient_ex floor_three_halves Let_def)

subsection \<open>The frames of an overlay\<close>

lemma make_frame_effect:
  assumes c: "trajectory c = traj" "cursor_duration c = round_double (D / of_nat (length traj))"
      "cursor_duration c \<noteq> Finite 0" "traj \<noteq> []"
    and D: "0 < D" and t: "0 \<le> t" and fin: "double_quotient D (length traj) t \<noteq> Infinity"
  obtains img where "make_frame covers c t = Inr (img, c\<lparr>frame := img\<rparr>)"
    and "\<And>p. frame c p = red \<Longrightarrow> img p = red"
    and "\<And>p. marked covers traj D t p \<Longrightarrow> img p = red"
proof -
  obtain q where q: "double_quotient D (length traj) t = Finite q"
    using fin by (cases "double_quotient D (length traj) t") simp_all
  show ?thesis
  proof (cases "\<lfloor>q\<rfloor> < int (length traj)")
    case True
    obtain x y where xy: "traj ! nat \<lfloor>q\<rfloor> = (x, y)"
      by (cases "traj ! nat \<lfloor>q\<rfloor>")
    let ?img = "ellipse covers (frame c) (x - 5, y - 5, x + 5, y + 5) red"
    have "make_frame covers c t = Inr (?img, c\<lparr>frame := ?img\<rparr>)"
      using make_frame_step [OF c D t, of covers] True xy q by (simp add: Let_def)
    moreover have "?img p = red" if "frame c p = red" for p
      using that by (simp add: ellipse_def)
    moreover have "?img p = red" if "marked covers traj D t p" for p
      using that xy q by (simp add: marked_def ellipse_def)
    ultimately show ?thesis
      by (rule that)
  next
    case False
    have "make_frame covers c t = Inr (frame c, c\<lparr>frame := frame c\<rparr>)"
      using make_frame_step [OF c D t, of covers] False q by (simp add: Let_def)
    moreover have "\<not> marked covers traj D t p" for p
      using False q by (simp add: marked_def)
    ultimately show ?thesis
      using that by blast
  qed
qed

lemma make_frames_persist:
  assumes "trajectory c = traj"
    and "cursor_duration c = round_double (D / of_nat (length traj))"
    and "cursor_duration c \<noteq> Finite 0" and "traj \<noteq> []" and "0 < D"
    and "\<forall>t\<in>set ts. 0 \<le> t \<and> double_quotient D (length traj) t \<noteq> Infinity"
  shows "\<exists>imgs. make_frames covers c ts = Inr imgs \<and> length imgs = length ts \<and>
           (\<forall>k p. k < length ts \<and> frame c p = red \<longrightarrow> (imgs ! k) p = red) \<and>
           (\<forall>j k p. j \<le> k \<and> k < length ts \<and> marked covers traj D (ts ! j) p
              \<longrightarrow> (imgs ! k) p = red)"
  using assms
proof (induction ts arbitrary: c)
  case Nil
  then show ?case by simp
next
  case (Cons t ts)
  from Cons.prems have t: "0 \<le> t" "double_quotient D (length traj) t \<noteq> Infinity"
    and ts: "\<forall>t\<in>set ts. 0 \<le> t \<and> double_quotient D (length traj) t \<noteq> Infinity"
    by simp_all
  obtain img where step: "make_frame covers c t = Inr (img, c\<lparr>frame := img\<rparr>)"
    and keep: "\<And>p. frame c p = red \<Longrightarrow> img p = red"
    and draw: "\<And>p. marked covers traj D t p \<Longrightarrow> img p = red"
    using make_frame_effect [OF Cons.prems(1-5) t] by blast
  let ?c = "c\<lparr>frame := img\<rparr>"
  have "trajectory ?c = traj"
    and "cursor_duration ?c = round_double (D / of_nat (length traj))"
    and "cursor_duration ?c \<noteq> Finite 0"
    using Cons.prems(1-3) by simp_all
  from Cons.IH [OF this Cons.prems(4,5) ts]
  obtain imgs where run: "make_frames covers ?c ts = Inr imgs"
    and len: "length imgs = length ts"
    and base: "\<And>k p. k < length ts \<Longrightarrow> img p = red \<Longrightarrow> (imgs ! k) p = red"
    and later: "\<And>j k p. j \<le> k \<Longrightarrow> k < length ts \<Longrightarrow> marked covers traj D (ts ! j) p
                  \<Longrightarrow> (imgs ! k) p = red"
    by auto
  have "make_frames covers c (t # ts) = Inr (img # imgs)"
    using step run by simp
  moreover have "length (img # imgs) = length (t # ts)"
    using len by simp
  moreover have "((img # imgs) ! k) p = red"
    if "k < length (t # ts)" and "frame c p = red" for k p
    using that keep base by (cases k) auto
  moreover have "((img # imgs) ! k) p = red"
    if "j \<le> k" and "k < length (t # ts)" and "marked covers traj D ((t # ts) ! j) p" for j k p
  proof (cases j)
    case 0
    then have "img p = red"
      using that(3) draw by simp
    then show ?thesis
      using that(2) base by (cases k) auto
  next
    case (Suc j')
    with that(1) obtain k' where "k = Suc k'"
      by (cases k) auto
    then show ?thesis
      using Suc that later by simp
  qed
  ultimately show ?case
    by blast
qed

text \<open>
  C6. The frames of one overlay, requested one after the other at any times \<open>t \<ge> 0\<close>
  (whose quotient by the cursor duration is a finite double): every frame is produced,
  and every pixel of the marker drawn for the \<open>j\<close>-th request is red in the \<open>j\<close>-th
  frame and in every later one, since each frame is drawn on the buffer the previous call
  left.
\<close>

theorem markers_persist:
  assumes "CursorClip_init covers fr traj D = Inr c" and "0 < D"
    and "\<forall>t\<in>set ts. 0 \<le> t \<and> double_quotient D (length traj) t \<noteq> Infinity"
  shows "\<exists>imgs. make_frames covers c ts = Inr imgs \<and> length imgs = length ts \<and>
           (\<forall>j k p. j \<le> k \<and> k < length ts \<and> marked covers traj D (ts ! j) p
              \<longrightarrow> (imgs ! k) p = red)"
  using make_frames_persist [OF CursorClip_init_Inr(2,3,4,1) [OF assms(1)] assms(2,3), of covers]
  by blast

lemma marked_ex: "marked disc [(10, 10), (20, 10)] 2 0 (10, 10)"
  by (simp add: marked_def double_quotient_ex disc_def)

theorem markers_persist_witness:
  "\<exists>imgs. make_frames disc
       \<lparr>trajectory = [(10, 10), (20, 10)], cursor_duration = Finite 1,
        frame = ellipse disc black (5, 5, 15, 15) red, duration = 2\<rparr>
       [0, 3 / 2] = Inr imgs
     \<and> length imgs = 2 \<and> (imgs ! 0) (10, 10) = red \<and> (imgs ! 1) (10, 10) = red"
proof -
  have times: "\<forall>t\<in>set [0, 3 / 2 :: rat]. 0 \<le> t \<and> double_quotient 2 (length [(10, 10), (20, 10 :: rat)]) t \<noteq> Infinity"
    by (simp add: double_quotient_ex)
  from markers_persist [OF init_ex _ times]
  obtain imgs where run: "make_frames disc
       \<lparr>trajectory = [(10, 10), (20, 10)], cursor_duration = Finite 1,
        frame = ellipse disc black (5, 5, 15, 15) red, duration = 2\<rparr>
       [0, 3 / 2] = Inr imgs"
    and len: "length imgs = length [0, 3 / 2 :: rat]"
    and keep: "\<And>j k p. j \<le> k \<Longrightarrow> k < length [0, 3 / 2 :: rat]
        \<Longrightarrow> marked disc [(10, 10), (20, 10)] 2 ([0, 3 / 2] ! j) p \<Longrightarrow> (imgs ! k) p = red"
    by auto
  have "(imgs ! 0) (10, 10) = red"
    by (rule keep [of 0 0]) (simp_all add: marked_ex)
  moreover have "(imgs ! 1) (10, 10) = red"
    by (rule keep [of 0 1]) (simp_all add: marked_ex)
  ultimately show ?thesis
    using run len by simp
qed

section \<open>The duration of the output\<close>

lemma subclip_in_range:
  assumes "0 \<le> a" and "a \<le> clip_duration c" and "0 \<le> b"
  shows "subclip c a b = Inr \<lparr>source_start = source_start c + a, source_end = source_start c + b\<rparr>"
  using assms by (simp add: subclip_def subclip_times_def)

lemma freeze_at_end:
  assumes "0 \<le> t" and "clip_duration c = t"
  shows "freeze c t f = Inr (t + f)"
proof (cases "t = 0")
  case True
  then show ?thesis
    using assms by (simp add: freeze_def clip_duration_def)
next
  case False
  have "subclip c 0 t = Inr \<lparr>source_start = source_start c + 0, source_end = source_start c + t\<rparr>"
    using assms by (intro subclip_in_range) simp_all
  then show ?thesis
    using False assms by (simp add: freeze_def clip_duration_def)
qed

lemma CursorClip_init_ok:
  assumes "traj \<noteq> []" and "round_double (D / of_nat (length traj)) \<noteq> Finite 0"
  shows "CursorClip_init covers fr traj D =
     Inr \<lparr>trajectory = traj, cursor_duration = round_double (D / of_nat (length traj)),
          frame = (case traj ! 0 of
                     (x, y) \<Rightarrow> ellipse covers fr (x - 5, y - 5, x + 5, y + 5) red),
          duration = D\<rparr>"
proof -
  let ?cd = "round_double (D / of_nat (length traj))"
  let ?self = "\<lparr>trajectory = traj, cursor_duration = ?cd, frame = fr, duration = D\<rparr>"
  have cd: "float_div D (Finite (of_nat (length traj))) = Inr ?cd"
    using assms(1) by (simp add: float_div_def)
  have "float_div 0 ?cd = Inr (Finite 0)"
    using assms(2) by (cases ?cd) (simp_all add: float_div_def round_double_0)
  then have "frame_index ?self 0 = Inr 0"
    by (simp add: frame_index_def int_of_float_def)
  moreover have "getitem traj 0 = Inr (traj ! 0)"
    using assms(1) by (simp add: getitem_def)
  ultimately have "make_frame covers ?self 0 =
      (case traj ! 0 of (x, y) \<Rightarrow>
         Inr (ellipse covers fr (x - 5, y - 5, x + 5, y + 5) red,
              ?self\<lparr>frame := ellipse covers fr (x - 5, y - 5, x + 5, y + 5) red\<rparr>))"
    using assms(1) by (simp add: make_frame_def Let_def split: prod.splits)
  then show ?thesis
    by (simp add: CursorClip_init_def cd split: prod.splits)
qed

lemma first_loop_body_in_range:
  assumes parse: "int_of_str (base_name a) = Inr ms"
    and t: "0 \<le> ms" "of_int ms / 1000 < clip_duration (video l)"
    and traj: "json_load fs j \<noteq> []"
      "round_double (audio_duration fs a / of_nat (length (json_load fs j))) \<noteq> Finite 0"
    and f: "0 \<le> audio_duration fs a"
  shows "first_loop_body covers fs vf l (a, j) =
     Inr (l\<lparr>clip2 := Some (Some \<lparr>source_start = source_start (video l) + of_int ms / 1000,
                                  source_end = source_start (video l) + clip_duration (video l)\<rparr>),
            insertion_clips :=
              insertion_clips l @ [narration_of covers fs vf (of_int ms / 1000) (a, j)],
            insertion_times := insertion_times l @ [of_int ms / 1000]\<rparr>)"
proof -
  let ?t = "of_int ms / 1000 :: rat"
  let ?v = "video l"
  have t0: "0 \<le> ?t"
    using t(1) by simp
  have d0: "0 \<le> clip_duration ?v"
    using t0 t(2) by simp
  let ?c1 = "\<lparr>source_start = source_start ?v + 0, source_end = source_start ?v + ?t\<rparr>"
  have c1: "subclip ?v 0 ?t = Inr ?c1"
    using t0 d0 by (intro subclip_in_range) simp_all
  have c2: "subclip ?v ?t (clip_duration ?v)
      = Inr \<lparr>source_start = source_start ?v + ?t, source_end = source_start ?v + clip_duration ?v\<rparr>"
    using t0 t(2) d0 by (intro subclip_in_range) simp_all
  have d1: "clip_duration ?c1 = ?t"
    by (simp add: clip_duration_def)
  have fr: "freeze ?c1 ?t (audio_duration fs a) = Inr (?t + audio_duration fs a)"
    using t0 d1 by (rule freeze_at_end)
  have cut: "subclip_times (?t + audio_duration fs a) ?t (?t + audio_duration fs a)
      = Inr (?t, ?t + audio_duration fs a)"
    using t0 f by (simp add: subclip_times_def Let_def)
  note init = CursorClip_init_ok [OF traj, of covers "get_frame vf ?t"]
  show ?thesis
    unfolding first_loop_body_def
    by (simp only: parse t(2) c1 c2 d1 fr cut init narration_of_def Let_def
        prod.case sum.case if_True)
qed

lemma first_loop_in_range:
  fixes ms :: "string \<Rightarrow> int"
  assumes "\<forall>(a, j)\<in>set us. int_of_str (base_name a) = Inr (ms a) \<and> 0 \<le> ms a
             \<and> of_int (ms a) / 1000 < clip_duration (video l)
             \<and> json_load fs j \<noteq> []
             \<and> round_double (audio_duration fs a / of_nat (length (json_load fs j)))
                 \<noteq> Finite 0
             \<and> 0 \<le> audio_duration fs a"
  shows "\<exists>l'. first_loop covers fs vf l us = Inr l' \<and> video l' = video l
           \<and> final_clips l' = final_clips l
           \<and> insertion_times l' = insertion_times l @ map (\<lambda>(a, j). of_int (ms a) / 1000) us
           \<and> insertion_clips l'
               = insertion_clips l
                 @ map (\<lambda>(a, j). narration_of covers fs vf (of_int (ms a) / 1000) (a, j)) us"
  using assms
proof (induction us arbitrary: l)
  case Nil
  then show ?case by simp
next
  case (Cons u us)
  obtain a j where u: "u = (a, j)"
    by (cases u)
  let ?l = "l\<lparr>clip2 := Some (Some \<lparr>source_start = source_start (video l) + of_int (ms a) / 1000,
                                  source_end = source_start (video l) + clip_duration (video l)\<rparr>),
            insertion_clips := insertion_clips l @ [narration_of covers fs vf (of_int (ms a) / 1000) (a, j)],
            insertion_times := insertion_times l @ [of_int (ms a) / 1000]\<rparr>"
  have body: "first_loop_body covers fs vf l (a, j) = Inr ?l"
    using Cons.prems u by (intro first_loop_body_in_range) simp_all
  have "\<forall>(a, j)\<in>set us. int_of_str (base_name a) = Inr (ms a) \<and> 0 \<le> ms a
             \<and> of_int (ms a) / 1000 < clip_duration (video ?l)
             \<and> json_load fs j \<noteq> []
             \<and> round_double (audio_duration fs a / of_nat (length (json_load fs j)))
                 \<noteq> Finite 0
             \<and> 0 \<le> audio_duration fs a"
    using Cons.prems by simp
  from Cons.IH [OF this] obtain l' where l': "first_loop covers fs vf ?l us = Inr l'"
    "video l' = video ?l" "final_clips l' = final_clips ?l"
    "insertion_times l' = insertion_times ?l @ map (\<lambda>(a, j). of_int (ms a) / 1000) us"
    "insertion_clips l' = insertion_clips ?l
        @ map (\<lambda>(a, j). narration_of covers fs vf (of_int (ms a) / 1000) (a, j)) us"
    by blast
  have "first_loop covers fs vf l (u # us) = Inr l'"
    using body l'(1) u by simp
  then show ?case
    using l'(2-5) u by simp
qed

lemma second_loop_body_in_range:
  assumes "0 \<le> r" and "r \<le> clip_duration (video l)"
  shows "second_loop_body l (r, c) =
     Inr (l\<lparr>clip2 := Some (Some \<lparr>source_start = source_start (video l) + r,
                                  source_end = source_start (video l) + clip_duration (video l)\<rparr>),
            final_clips := final_clips l
              @ [Video \<lparr>source_start = source_start (video l) + 0,
                        source_end = source_start (video l) + r\<rparr>, c],
            video := \<lparr>source_start = source_start (video l) + r,
                      source_end = source_start (video l) + clip_duration (video l)\<rparr>\<rparr>)"
proof -
  have d0: "0 \<le> clip_duration (video l)"
    using assms by simp
  have c1: "subclip (video l) 0 r
      = Inr \<lparr>source_start = source_start (video l) + 0, source_end = source_start (video l) + r\<rparr>"
    using assms d0 by (intro subclip_in_range) simp_all
  have c2: "subclip (video l) r (clip_duration (video l))
      = Inr \<lparr>source_start = source_start (video l) + r,
             source_end = source_start (video l) + clip_duration (video l)\<rparr>"
    using assms d0 by (intro subclip_in_range) simp_all
  show ?thesis
    unfolding second_loop_body_def by (simp only: c1 c2 prod.case sum.case)
qed

lemma concatenated_duration_append:
  "concatenated_duration (xs @ ys) = concatenated_duration xs + concatenated_duration ys"
  by (simp add: concatenated_duration_def)

lemma second_loop_in_range:
  assumes "\<forall>p\<in>set ps. 0 \<le> fst p" and "sum_list (map fst ps) \<le> clip_duration (video l)"
  shows "\<exists>l'. second_loop l ps = Inr l'
           \<and> concatenated_duration (final_clips l') + clip_duration (video l')
               = concatenated_duration (final_clips l) + clip_duration (video l)
                 + sum_list (map (\<lambda>p. duration_of (snd p)) ps)
           \<and> (ps \<noteq> [] \<longrightarrow> clip2 l' = Some (Some (video l')))"
  using assms
proof (induction ps arbitrary: l)
  case Nil
  then show ?case by simp
next
  case (Cons p ps)
  obtain r c where p: "p = (r, c)"
    by (cases p)
  have r: "0 \<le> r" and rest: "\<forall>p\<in>set ps. 0 \<le> fst p"
    using Cons.prems(1) p by simp_all
  have "0 \<le> sum_list (map fst ps)"
    using rest by (intro sum_list_nonneg) auto
  with Cons.prems(2) p have le: "r \<le> clip_duration (video l)"
    by simp
  let ?v = "\<lparr>source_start = source_start (video l) + r,
             source_end = source_start (video l) + clip_duration (video l)\<rparr>"
  let ?l = "l\<lparr>clip2 := Some (Some ?v),
            final_clips := final_clips l
              @ [Video \<lparr>source_start = source_start (video l) + 0,
                        source_end = source_start (video l) + r\<rparr>, c],
            video := ?v\<rparr>"
  have body: "second_loop_body l (r, c) = Inr ?l"
    using r le by (rule second_loop_body_in_range)
  have dv: "clip_duration (video ?l) = clip_duration (video l) - r"
    by (simp add: clip_duration_def)
  have "sum_list (map fst ps) \<le> clip_duration (video ?l)"
    using Cons.prems(2) p dv by simp
  from Cons.IH [OF rest this] obtain l' where l': "second_loop ?l ps = Inr l'"
    "concatenated_duration (final_clips l') + clip_duration (video l')
       = concatenated_duration (final_clips ?l) + clip_duration (video ?l)
         + sum_list (map (\<lambda>p. duration_of (snd p)) ps)"
    "ps \<noteq> [] \<longrightarrow> clip2 l' = Some (Some (video l'))"
    by blast
  have run: "second_loop l (p # ps) = Inr l'"
    using body l'(1) p by simp
  have "concatenated_duration (final_clips ?l)
      = concatenated_duration (final_clips l) + r + duration_of c"
    by (simp add: concatenated_duration_def clip_duration_def)
  with l'(2) dv have total: "concatenated_duration (final_clips l') + clip_duration (video l')
      = concatenated_duration (final_clips l) + clip_duration (video l)
        + sum_list (map (\<lambda>p. duration_of (snd p)) (p # ps))"
    using p by simp
  have "clip2 l' = Some (Some (video l'))"
  proof (cases "ps = []")
    case True
    then have "l' = ?l"
      using l'(1) by simp
    then show ?thesis
      by simp
  next
    case False
    then show ?thesis
      using l'(3) by simp
  qed
  with run total show ?case
    by blast
qed

lemma relative_as_differences:
  "relative_insertion_times (a # as) = 0 # differences a as"
proof -
  have "map (\<lambda>i. (a # as) ! i - (a # as) ! (i - 1)) [1..<length (a # as)] = differences a as"
  proof (induction as arbitrary: a)
    case Nil
    then show ?case by simp
  next
    case (Cons b bs)
    let ?f = "\<lambda>i. (a # b # bs) ! i - (a # b # bs) ! (i - 1)"
    let ?g = "\<lambda>i. (b # bs) ! i - (b # bs) ! (i - 1)"
    have "[1..<Suc (Suc (length bs))] = 1 # [Suc 1..<Suc (Suc (length bs))]"
      by (rule upt_conv_Cons) simp
    moreover have "map Suc [1..<Suc (length bs)] = [Suc 1..<Suc (Suc (length bs))]"
      by (rule map_Suc_upt)
    moreover have "length (a # b # bs) = Suc (Suc (length bs))"
      and "length (b # bs) = Suc (length bs)"
      by simp_all
    ultimately have idx: "[1..<length (a # b # bs)] = 1 # map Suc [1..<length (b # bs)]"
      by presburger
    have step: "map ?f [1..<length (a # b # bs)]
        = ?f 1 # map (\<lambda>i. ?f (Suc i)) [1..<length (b # bs)]"
      by (simp only: idx list.map map_map comp_def)
    have first: "?f 1 = b - a"
      by simp
    have "map (\<lambda>i. ?f (Suc i)) [1..<length (b # bs)] = map ?g [1..<length (b # bs)]"
    proof (rule map_cong [OF refl])
      fix i assume "i \<in> set [1..<length (b # bs)]"
      then have "1 \<le> i"
        by (simp only: set_upt atLeastLessThan_iff)
      then obtain k where "i = Suc k"
        by (cases i) auto
      then show "?f (Suc i) = ?g i"
        by simp
    qed
    then have "map ?f [1..<length (a # b # bs)] = (b - a) # differences b bs"
      by (simp only: step first Cons.IH [of b])
    then show ?case
      by (simp only: differences.simps)
  qed
  then show ?thesis
    by (simp add: relative_insertion_times_def)
qed

lemma length_differences: "length (differences a as) = length as"
  by (induction as arbitrary: a) simp_all

lemma differences_nonneg: "sorted (a # as) \<Longrightarrow> \<forall>r\<in>set (differences a as). 0 \<le> r"
proof (induction as arbitrary: a)
  case Nil
  then show ?case by simp
next
  case (Cons b bs)
  from Cons.prems have "a \<le> b" and "sorted (b # bs)"
    by simp_all
  with Cons.IH [of b] show ?case
    by simp
qed

lemma sum_differences: "sum_list (differences a as) = last (a # as) - a"
  by (induction as arbitrary: a) simp_all

text \<open>
  When the units are processed in the order of their times (the string order of the file
  names is their numeric order), every time is a natural number of milliseconds before
  the end of the video, every trajectory has a point and no audio has a negative
  duration or one so short that the cursor duration rounds to zero, the run produces an output that lasts as long as the video and the audios
  together.
\<close>

lemma duration_conserved_in_order:
  fixes ms :: "string \<Rightarrow> int"
  assumes match: "names_match (audio_files_of d (listdir fs)) (json_files_of d (listdir fs))"
    and us: "us = zip (audio_files_of d (listdir fs)) (json_files_of d (listdir fs))"
    and nonempty: "us \<noteq> []"
    and units: "\<forall>(a, j)\<in>set us. int_of_str (base_name a) = Inr (ms a) \<and> 0 \<le> ms a
                  \<and> of_int (ms a) / 1000 < file_duration vf
                  \<and> json_load fs j \<noteq> []
                  \<and> round_double (audio_duration fs a / of_nat (length (json_load fs j)))
                      \<noteq> Finite 0
                  \<and> 0 \<le> audio_duration fs a"
    and order: "sorted (map (\<lambda>(a, j). ms a) us)"
  shows "\<exists>clips. stitch_video_audio covers vf d fs = Inr clips
           \<and> concatenated_duration clips
               = file_duration vf + sum_list (map (\<lambda>(a, j). audio_duration fs a) us)"
proof -
  let ?D = "file_duration vf"
  let ?l0 = "\<lparr>video = \<lparr>source_start = 0, source_end = ?D\<rparr>, clip2 = None, final_clips = [],
             insertion_times = [], insertion_clips = []\<rparr>"
  let ?t = "\<lambda>(a, j). of_int (ms a) / 1000 :: rat"
  let ?n = "\<lambda>(a, j). narration_of covers fs vf (of_int (ms a) / 1000) (a, j)"
  have d0: "clip_duration (video ?l0) = ?D"
    by (simp add: clip_duration_def)
  have "\<forall>(a, j)\<in>set us. int_of_str (base_name a) = Inr (ms a) \<and> 0 \<le> ms a
          \<and> of_int (ms a) / 1000 < clip_duration (video ?l0)
          \<and> json_load fs j \<noteq> []
          \<and> round_double (audio_duration fs a / of_nat (length (json_load fs j)))
              \<noteq> Finite 0
          \<and> 0 \<le> audio_duration fs a"
    using units by (simp only: d0)
  from first_loop_in_range [OF this, of covers vf] obtain l1
    where l1: "first_loop covers fs vf ?l0 us = Inr l1" "video l1 = video ?l0" "final_clips l1 = []"
      "insertion_times l1 = map ?t us" "insertion_clips l1 = map ?n us"
    by auto
  obtain u us' where cons: "us = u # us'"
    using nonempty by (cases us) auto
  let ?ts = "map ?t us"
  let ?ps = "zip (relative_insertion_times ?ts) (map ?n us)"
  define t0 where "t0 = ?t u"
  define rest where "rest = map ?t us'"
  have ts: "?ts = t0 # rest"
    by (simp add: cons t0_def rest_def)
  have rel: "relative_insertion_times ?ts = 0 # differences t0 rest"
    by (simp only: ts relative_as_differences)
  have len: "length (relative_insertion_times ?ts) = length (map ?n us)"
    using cons by (simp add: length_relative_insertion_times)
  have fst_ps: "map fst ?ps = relative_insertion_times ?ts"
    and snd_ps: "map snd ?ps = map ?n us"
    using len by (simp_all only: map_fst_zip map_snd_zip)
  have scaled: "sorted (map (\<lambda>x. of_int x / 1000 :: rat) (map (\<lambda>(a, j). ms a) us))"
    using order by (rule sorted_map_mono) (simp add: mono_on_def divide_right_mono)
  have "map (\<lambda>x. of_int x / 1000 :: rat) (map (\<lambda>(a, j). ms a) us) = ?ts"
    by (simp add: case_prod_beta)
  with scaled have "sorted ?ts"
    by (simp only:)
  then have sorted: "sorted (t0 # rest)"
    by (simp only: ts)
  have nonneg: "\<forall>p\<in>set ?ps. 0 \<le> fst p"
  proof
    fix p assume "p \<in> set ?ps"
    then have "fst p \<in> fst ` set ?ps"
      by (rule imageI)
    then have "fst p \<in> set (map fst ?ps)"
      by (simp only: set_map)
    then have "fst p \<in> set (relative_insertion_times ?ts)"
      by (simp only: fst_ps)
    then have "fst p \<in> set (0 # differences t0 rest)"
      by (simp only: rel)
    then show "0 \<le> fst p"
      using differences_nonneg [OF sorted] by auto
  qed
  have "last ?ts \<in> set ?ts"
    using cons by (intro last_in_set) simp
  then obtain a j where aj: "(a, j) \<in> set us" "last ?ts = of_int (ms a) / 1000"
    by auto
  then have last_lt: "last ?ts < ?D"
    using units by auto
  have first_ge: "0 \<le> t0"
    using units cons by (cases u) (auto simp: t0_def)
  have "sum_list (relative_insertion_times ?ts) = last (t0 # rest) - t0"
    by (simp only: rel sum_list.Cons sum_differences add_0)
  then have "sum_list (relative_insertion_times ?ts) = last ?ts - t0"
    by (simp only: ts)
  then have "sum_list (map fst ?ps) \<le> clip_duration (video l1)"
    using last_lt first_ge l1(2) d0 by (simp only: fst_ps)
  from second_loop_in_range [OF nonneg this] obtain l2
    where l2: "second_loop l1 ?ps = Inr l2"
      "concatenated_duration (final_clips l2) + clip_duration (video l2)
         = concatenated_duration (final_clips l1) + clip_duration (video l1)
           + sum_list (map (\<lambda>p. duration_of (snd p)) ?ps)"
      "?ps \<noteq> [] \<longrightarrow> clip2 l2 = Some (Some (video l2))"
    by blast
  have "length ?ps = length us"
    using len by simp
  then have "?ps \<noteq> []"
    using nonempty by auto
  then have c2: "clip2 l2 = Some (Some (video l2))"
    using l2(3) by simp
  have run: "stitch_video_audio covers vf d fs = Inr (final_clips l2 @ [Video (video l2)])"
    unfolding stitch_video_audio_def Let_def
    using match l1(1) l2(1) c2 by (simp add: us [symmetric] l1(4,5))
  have "map (\<lambda>p. duration_of (snd p)) ?ps = map duration_of (map snd ?ps)"
    by simp
  also have "\<dots> = map (\<lambda>(a, j). audio_duration fs a) us"
    by (simp only: snd_ps) (simp add: narration_of_def case_prod_beta)
  finally have "concatenated_duration (final_clips l2) + clip_duration (video l2)
      = ?D + sum_list (map (\<lambda>(a, j). audio_duration fs a) us)"
    using l2(2) l1(2,3) d0 by (simp add: concatenated_duration_def)
  then have "concatenated_duration (final_clips l2 @ [Video (video l2)])
      = ?D + sum_list (map (\<lambda>(a, j). audio_duration fs a) us)"
    by (simp add: concatenated_duration_def)
  with run show ?thesis
    by blast
qed

lemma duration_1000_2000:
  "map_sum id concatenated_duration
     (stitch_video_audio disc (still_video 10) ''d''
        (dir_of [''1000.wav'', ''2000.wav'', ''1000.json'', ''2000.json'']))
   = Inr 14"
  by code_simp

section \<open>The loader\<close>

lemma int_of_str_error: "int_of_str s = Inl e \<Longrightarrow> e = ValueError"
  by (simp add: int_of_str_def Let_def split: if_splits)

lemma subclip_times_error: "subclip_times d a b = Inl e \<Longrightarrow> e = ValueError"
  by (simp add: subclip_times_def Let_def split: if_splits)

lemma subclip_error: "subclip c a b = Inl e \<Longrightarrow> e = ValueError"
  by (auto simp: subclip_def split: sum.splits dest: subclip_times_error)

lemma freeze_error: "freeze c t d = Inl e \<Longrightarrow> e = ValueError"
  by (auto simp: freeze_def split: sum.splits if_splits dest: subclip_error)

lemma CursorClip_init_error:
  assumes "CursorClip_init covers fr traj d = Inl e"
  shows "e = ZeroDivisionError \<or> e = OverflowError \<or> e = IndexError"
proof (cases "float_div d (Finite (of_nat (length traj)))")
  case (Inl e')
  then have "e = e'"
    using assms by (simp add: CursorClip_init_def)
  moreover have "e' = ZeroDivisionError"
    using Inl by (simp add: float_div_def split: if_splits)
  ultimately show ?thesis
    by simp
next
  case (Inr cd)
  then have "make_frame covers
      \<lparr>trajectory = traj, cursor_duration = cd, frame = fr, duration = d\<rparr> 0 = Inl e"
    using assms by (auto simp: CursorClip_init_def split: sum.splits)
  then show ?thesis
    by (rule make_frame_error)
qed

lemma first_loop_body_error:
  "first_loop_body covers fs vf l p = Inl e \<Longrightarrow> e \<noteq> AssertionError"
  unfolding first_loop_body_def Let_def
  by (auto split: prod.splits sum.splits if_splits
      dest: int_of_str_error subclip_error freeze_error subclip_times_error CursorClip_init_error)

lemma first_loop_error:
  "first_loop covers fs vf l ps = Inl e \<Longrightarrow> e \<noteq> AssertionError"
  by (induction ps arbitrary: l) (auto split: sum.splits dest: first_loop_body_error)

lemma second_loop_body_error: "second_loop_body l p = Inl e \<Longrightarrow> e = ValueError"
  unfolding second_loop_body_def
  by (auto split: prod.splits sum.splits dest: subclip_error)

lemma second_loop_error: "second_loop l ps = Inl e \<Longrightarrow> e = ValueError"
  by (induction ps arbitrary: l) (auto split: sum.splits dest: second_loop_body_error)

text \<open>
  C7. The run stops at the assertion of line 45, before the video is loaded, exactly
  when the base names of the audio files and those of the trajectory files are not the
  same set, whichever side has the extra name; with equal sets it goes on.
\<close>

theorem assert_iff:
  "stitch_video_audio covers vf audio_dir fs = Inl AssertionError \<longleftrightarrow>
     set (map base_name (audio_files_of audio_dir (listdir fs)))
       \<noteq> set (map base_name (json_files_of audio_dir (listdir fs)))"
  unfolding stitch_video_audio_def names_match_def Let_def
  by (auto split: sum.splits option.splits dest: first_loop_error second_loop_error)

theorem assert_iff_witness:
  "stitch_video_audio disc (still_video 10) ''d'' (dir_of [''1000.wav'']) = Inl AssertionError
   \<and> stitch_video_audio disc (still_video 10) ''d'' (dir_of [''1000.json'']) = Inl AssertionError
   \<and> stitch_video_audio disc (still_video 10) ''d'' (dir_of [''1000.wav'', ''1000.json''])
       \<noteq> Inl AssertionError"
proof -
  have a: "set (map base_name (audio_files_of ''d'' (listdir (dir_of [''1000.wav'']))))
      \<noteq> set (map base_name (json_files_of ''d'' (listdir (dir_of [''1000.wav'']))))"
    by code_simp
  have b: "set (map base_name (audio_files_of ''d'' (listdir (dir_of [''1000.json'']))))
      \<noteq> set (map base_name (json_files_of ''d'' (listdir (dir_of [''1000.json'']))))"
    by code_simp
  have c: "set (map base_name (audio_files_of ''d'' (listdir (dir_of [''1000.wav'', ''1000.json'']))))
      = set (map base_name (json_files_of ''d'' (listdir (dir_of [''1000.wav'', ''1000.json'']))))"
    by code_simp
  show ?thesis
    using a b c
      assert_iff [of disc "still_video 10" "''d''" "dir_of [''1000.wav'']"]
      assert_iff [of disc "still_video 10" "''d''" "dir_of [''1000.json'']"]
      assert_iff [of disc "still_video 10" "''d''" "dir_of [''1000.wav'', ''1000.json'']"]
    by blast
qed

text \<open>A directory with no audio file and no trajectory file: the assertion holds, both
  loops are skipped, and reading \<open>clip2\<close> at line 94 raises \<^verbatim>\<open>UnboundLocalError\<close>.\<close>

lemma neither_kind_unbound:
  assumes "\<forall>f\<in>set (listdir fs). \<not> endswith f ''.wav''"
    and "\<forall>f\<in>set (listdir fs). \<not> endswith f ''.json''"
  shows "stitch_video_audio covers vf audio_dir fs = Inl UnboundLocalError"
proof -
  have "filter (\<lambda>f. endswith f ''.wav'') (listdir fs) = []"
    and "filter (\<lambda>f. endswith f ''.json'') (listdir fs) = []"
    using assms by (simp_all add: filter_empty_conv)
  then have "audio_files_of audio_dir (listdir fs) = []"
    and "json_files_of audio_dir (listdir fs) = []"
    by (simp_all add: audio_files_of_def json_files_of_def)
  then show ?thesis
    by (simp add: stitch_video_audio_def names_match_def relative_insertion_times_def)
qed

text \<open>With no audio file but some trajectory file, the run stops at the assertion.\<close>

lemma only_json_assertion:
  assumes "\<forall>f\<in>set (listdir fs). \<not> endswith f ''.wav''"
    and "\<exists>f\<in>set (listdir fs). endswith f ''.json''"
  shows "stitch_video_audio covers vf audio_dir fs = Inl AssertionError"
proof -
  have "filter (\<lambda>f. endswith f ''.wav'') (listdir fs) = []"
    using assms(1) by (simp add: filter_empty_conv)
  then have audio: "audio_files_of audio_dir (listdir fs) = []"
    by (simp add: audio_files_of_def)
  have "filter (\<lambda>f. endswith f ''.json'') (listdir fs) \<noteq> []"
    using assms(2) by (simp add: filter_empty_conv)
  moreover have "length (json_files_of audio_dir (listdir fs))
      = length (filter (\<lambda>f. endswith f ''.json'') (listdir fs))"
    by (simp add: json_files_of_def)
  ultimately have "json_files_of audio_dir (listdir fs) \<noteq> []"
    by auto
  with audio show ?thesis
    by (simp add: stitch_video_audio_def names_match_def)
qed

text \<open>
  C9. A directory that holds \<^verbatim>\<open>1000.json\<close> and nothing else has no audio file, and the
  run does not reach line 94: it stops at the assertion of line 45.
\<close>

theorem lone_json_stops_at_assertion:
  "filter (\<lambda>f. endswith f ''.wav'') (listdir (dir_of [''1000.json''])) = []
   \<and> stitch_video_audio disc (still_video 10) ''d'' (dir_of [''1000.json''])
       = Inl AssertionError"
proof -
  have "filter (\<lambda>f. endswith f ''.wav'') (listdir (dir_of [''1000.json''])) = []"
    by code_simp
  moreover have "outline (stitch_video_audio disc (still_video 10) ''d''
      (dir_of [''1000.json''])) = Inl AssertionError"
    by code_simp
  ultimately show ?thesis
    by (simp only: outline_Inl simp_thms)
qed

text \<open>
  C9, amended. A directory with no audio file gives no output: when it has no trajectory
  file either, both loops are skipped and reading \<open>clip2\<close> at line 94 raises
  \<^verbatim>\<open>UnboundLocalError\<close>; when it has a trajectory file, the run stops at the assertion of
  line 45.
\<close>

theorem no_audio_no_output:
  assumes "\<forall>f\<in>set (listdir fs). \<not> endswith f ''.wav''"
  shows "stitch_video_audio covers vf audio_dir fs =
           Inl (if \<forall>f\<in>set (listdir fs). \<not> endswith f ''.json''
                then UnboundLocalError else AssertionError)"
proof (cases "\<forall>f\<in>set (listdir fs). \<not> endswith f ''.json''")
  case True
  with assms have "stitch_video_audio covers vf audio_dir fs = Inl UnboundLocalError"
    by (rule neither_kind_unbound)
  with True show ?thesis
    by simp
next
  case False
  then have "\<exists>f\<in>set (listdir fs). endswith f ''.json''"
    by blast
  with assms have "stitch_video_audio covers vf audio_dir fs = Inl AssertionError"
    by (rule only_json_assertion)
  with False show ?thesis
    by simp
qed

theorem no_audio_no_output_witness:
  "stitch_video_audio disc (still_video 10) ''d'' (dir_of [''notes.txt''])
     = Inl UnboundLocalError
   \<and> stitch_video_audio disc (still_video 10) ''d'' (dir_of [''notes.txt'', ''2000.json''])
     = Inl AssertionError"
proof -
  have a: "\<forall>f\<in>set (listdir (dir_of [''notes.txt''])). \<not> endswith f ''.wav''"
    and b: "\<forall>f\<in>set (listdir (dir_of [''notes.txt'', ''2000.json''])). \<not> endswith f ''.wav''"
    by (simp_all add: dir_of_def endswith_def suffix_to_prefix)
  have c: "\<forall>f\<in>set (listdir (dir_of [''notes.txt''])). \<not> endswith f ''.json''"
    and d: "\<not> (\<forall>f\<in>set (listdir (dir_of [''notes.txt'', ''2000.json''])).
              \<not> endswith f ''.json'')"
    by (simp_all add: dir_of_def endswith_def suffix_to_prefix)
  show ?thesis
    using no_audio_no_output [OF a, of disc "still_video 10" "''d''"]
      no_audio_no_output [OF b, of disc "still_video 10" "''d''"] c d
    by simp
qed

section \<open>Pairing audio files with trajectory files\<close>

lemma endswith_iff: "endswith f e \<longleftrightarrow> (\<exists>x. f = x @ e)"
  by (simp add: endswith_def suffix_def)

lemma join_plain:
  assumes "CHR ''/'' \<notin> set f"
  shows "join d f = dir_prefix d @ f"
proof -
  have "\<not> prefix ''/'' f"
    using assms by (cases f) auto
  then show ?thesis
    by (simp add: join_def dir_prefix_def)
qed

lemma takeWhile_until:
  assumes "c \<notin> set xs"
  shows "takeWhile (\<lambda>a. a \<noteq> c) (rev xs @ c # ys) = rev xs"
    and "takeWhile (\<lambda>a. a \<noteq> c) (rev xs) = rev xs"
proof -
  have all: "\<And>a. a \<in> set (rev xs) \<Longrightarrow> a \<noteq> c"
    using assms by auto
  show "takeWhile (\<lambda>a. a \<noteq> c) (rev xs @ c # ys) = rev xs"
    by (subst takeWhile_append2) (use all in simp_all)
  show "takeWhile (\<lambda>a. a \<noteq> c) (rev xs) = rev xs"
    by (rule takeWhile_eq_all_conv [THEN iffD2]) (use all in blast)
qed

lemma basename_append:
  assumes "CHR ''/'' \<notin> set f" and "p = [] \<or> endswith p ''/''"
  shows "basename (p @ f) = f"
proof (cases "p = []")
  case True
  have "basename f = f"
    unfolding basename_def
    by (simp only: takeWhile_until(2) [OF assms(1)] rev_rev_ident)
  then show ?thesis
    using True by simp
next
  case False
  then obtain q where q: "p = q @ ''/''"
    using assms(2) by (auto simp: endswith_iff)
  have "takeWhile (\<lambda>c. c \<noteq> CHR ''/'') (rev f @ CHR ''/'' # rev q) = rev f"
    using assms(1) by (rule takeWhile_until)
  then show ?thesis
    using q by (simp add: basename_def)
qed

lemma dir_prefix_ends: "dir_prefix d = [] \<or> endswith (dir_prefix d) ''/''"
  by (auto simp: dir_prefix_def endswith_iff)

lemma basename_join:
  assumes "CHR ''/'' \<notin> set f"
  shows "basename (join d f) = f"
  using assms basename_append [OF assms dir_prefix_ends] by (simp add: join_plain)

lemma basename_plain: "CHR ''/'' \<notin> set f \<Longrightarrow> basename f = f"
  using basename_append [of f "[]"] by simp

text \<open>The base name of a file \<open>x.e\<close> whose extension \<open>e\<close> has no dot.\<close>

lemma splitext_plain:
  assumes "CHR ''/'' \<notin> set x" and "CHR ''/'' \<notin> set e" and "CHR ''.'' \<notin> set e"
  shows "splitext (x @ CHR ''.'' # e)
         = (if filter (\<lambda>c. c \<noteq> CHR ''.'') x \<noteq> [] then (x, CHR ''.'' # e)
            else (x @ CHR ''.'' # e, []))"
proof -
  let ?f = "x @ CHR ''.'' # e"
  have b: "basename ?f = ?f"
    using assms(1,2) by (intro basename_plain) auto
  have "takeWhile (\<lambda>c. c \<noteq> CHR ''.'') (rev e @ CHR ''.'' # rev x) = rev e"
    using assms(3) by (rule takeWhile_until)
  then have ext: "rev (takeWhile (\<lambda>c. c \<noteq> CHR ''.'') (rev ?f)) = e"
    by simp
  show ?thesis
    unfolding splitext_def b ext Let_def by simp
qed

lemma base_name_join:
  assumes "CHR ''/'' \<notin> set x" and "CHR ''/'' \<notin> set e" and "CHR ''.'' \<notin> set e"
  shows "base_name (join d (x @ CHR ''.'' # e))
         = (if filter (\<lambda>c. c \<noteq> CHR ''.'') x \<noteq> [] then x else x @ CHR ''.'' # e)"
proof -
  have "basename (join d (x @ CHR ''.'' # e)) = x @ CHR ''.'' # e"
    using assms(1,2) by (intro basename_join) auto
  then show ?thesis
    using splitext_plain [OF assms] by (simp add: base_name_def)
qed

lemma base_name_join_dotfree:
  assumes "CHR ''/'' \<notin> set x" and "CHR ''/'' \<notin> set e" and "CHR ''.'' \<notin> set e"
    and "CHR ''.'' \<notin> set (base_name (join d (x @ CHR ''.'' # e)))"
  shows "base_name (join d (x @ CHR ''.'' # e)) = x" and "CHR ''.'' \<notin> set x"
proof -
  have "filter (\<lambda>c. c \<noteq> CHR ''.'') x \<noteq> []"
  proof
    assume "filter (\<lambda>c. c \<noteq> CHR ''.'') x = []"
    then have "base_name (join d (x @ CHR ''.'' # e)) = x @ CHR ''.'' # e"
      using base_name_join [OF assms(1-3), of d] by simp
    with assms(4) show False
      by simp
  qed
  then show "base_name (join d (x @ CHR ''.'' # e)) = x"
    using base_name_join [OF assms(1-3), of d] by simp
  with assms(4) show "CHR ''.'' \<notin> set x"
    by simp
qed

text \<open>Strings without a dot, each followed by a dot: what follows the dots does not
  decide the order, unless the strings are equal.\<close>

lemma dotted_less:
  assumes "CHR ''.'' \<notin> set x" and "CHR ''.'' \<notin> set y" and "x \<noteq> y"
  shows "x @ CHR ''.'' # u < y @ CHR ''.'' # v \<longleftrightarrow> x @ CHR ''.'' # u' < y @ CHR ''.'' # v'"
  using assms
proof (induction x arbitrary: y)
  case Nil
  then show ?case by (cases y) auto
next
  case (Cons a x)
  then show ?case by (cases y) auto
qed

lemma append_less_cancel: "p @ a < p @ b \<longleftrightarrow> a < (b :: 'a :: linorder list)"
  by (induction p) simp_all

lemma append_le_cancel: "p @ a \<le> p @ b \<longleftrightarrow> a \<le> (b :: 'a :: linorder list)"
  by (induction p) simp_all

text \<open>The sorted paths of the files with one extension, when no base name has a dot.\<close>

lemma sorted_files_shape:
  fixes e :: string
  defines "g \<equiv> (\<lambda>d x. dir_prefix d @ x @ CHR ''.'' # e)"
  assumes dist: "distinct names" and slash: "\<forall>f\<in>set names. CHR ''/'' \<notin> set f"
    and e: "CHR ''/'' \<notin> set e" "CHR ''.'' \<notin> set e"
    and files: "files = sort (map (join d) (filter (\<lambda>f. endswith f (CHR ''.'' # e)) names))"
    and nodot: "\<forall>p\<in>set files. CHR ''.'' \<notin> set (base_name p)"
  shows "files = map (g d) (map base_name files)"
    and "distinct (map base_name files)"
    and "\<forall>x\<in>set (map base_name files). CHR ''.'' \<notin> set x"
    and "sorted (map (g d) (map base_name files))"
proof -
  have elem: "p = g d (base_name p)" if "p \<in> set files" for p
  proof -
    from that files obtain f where f: "f \<in> set names" "endswith f (CHR ''.'' # e)" "p = join d f"
      by auto
    then obtain x where x: "f = x @ CHR ''.'' # e"
      by (auto simp: endswith_iff)
    have sx: "CHR ''/'' \<notin> set x"
      using slash f(1) x by auto
    have "CHR ''.'' \<notin> set (base_name (join d (x @ CHR ''.'' # e)))"
      using nodot that f(3) x by simp
    from base_name_join_dotfree(1) [OF sx e this]
    have "base_name p = x"
      using f(3) x by simp
    moreover have "p = dir_prefix d @ f"
      using f(1,3) slash by (simp add: join_plain)
    ultimately show ?thesis
      using x by (simp add: g_def)
  qed
  then show shape: "files = map (g d) (map base_name files)"
    by (simp add: map_idI [symmetric] comp_def)
  have "inj_on (join d) (set names)"
  proof (rule inj_onI)
    fix a b assume "a \<in> set names" "b \<in> set names" "join d a = join d b"
    then show "a = b"
      using slash by (simp add: join_plain)
  qed
  then have "inj_on (join d) (set (filter (\<lambda>f. endswith f (CHR ''.'' # e)) names))"
    by (rule inj_on_subset) auto
  then have "distinct files"
    using dist files by (simp add: distinct_map)
  then have "distinct (map (g d) (map base_name files))"
    using shape by simp
  then show "distinct (map base_name files)"
    by (simp only: distinct_map)
  show "\<forall>x\<in>set (map base_name files). CHR ''.'' \<notin> set x"
    using nodot by simp
  have "sorted files"
    using files by simp
  then show "sorted (map (g d) (map base_name files))"
    using shape by simp
qed

lemma same_order:
  assumes "CHR ''.'' \<notin> set x" and "CHR ''.'' \<notin> set y"
    and "p @ x @ CHR ''.'' # u \<le> p @ y @ CHR ''.'' # u"
  shows "p @ x @ CHR ''.'' # v \<le> p @ y @ CHR ''.'' # v"
proof (cases "x = y")
  case True
  then show ?thesis by simp
next
  case False
  have "x @ CHR ''.'' # u \<noteq> y @ CHR ''.'' # u"
    using False by simp
  moreover have "x @ CHR ''.'' # u \<le> y @ CHR ''.'' # u"
    using assms(3) by (simp only: append_le_cancel)
  ultimately have "x @ CHR ''.'' # u < y @ CHR ''.'' # u"
    by (simp only: less_le) simp
  then have "x @ CHR ''.'' # v < y @ CHR ''.'' # v"
    using dotted_less [OF assms(1,2) False] by blast
  then show ?thesis
    by (simp add: append_le_cancel)
qed

text \<open>
  C10. With the files \<^verbatim>\<open>a.wav\<close>, \<^verbatim>\<open>a.k.wav\<close>, \<^verbatim>\<open>a.json\<close> and \<^verbatim>\<open>a.k.json\<close> the sets of
  base names are equal, and the zipped lists pair \<^verbatim>\<open>a.k.wav\<close> with \<^verbatim>\<open>a.json\<close>.
\<close>

theorem zip_mismatch_dotted:
  "names_match (audio_files_of ''d'' [''a.wav'', ''a.k.wav'', ''a.json'', ''a.k.json''])
      (json_files_of ''d'' [''a.wav'', ''a.k.wav'', ''a.json'', ''a.k.json''])
   \<and> zip (audio_files_of ''d'' [''a.wav'', ''a.k.wav'', ''a.json'', ''a.k.json''])
        (json_files_of ''d'' [''a.wav'', ''a.k.wav'', ''a.json'', ''a.k.json''])
      = [(''d/a.k.wav'', ''d/a.json''), (''d/a.wav'', ''d/a.k.json'')]
   \<and> base_name ''d/a.k.wav'' \<noteq> base_name ''d/a.json''"
  by code_simp

text \<open>
  C10, amended. For the names of a directory (distinct, without a separator), when no
  base name of an audio or trajectory file contains a dot and the two sets of base names
  are equal, the two sorted lists have the same length and every pair of the zipped lists
  has one base name.
\<close>

theorem zip_pairs_same_base_name:
  assumes dist: "distinct names" and slash: "\<forall>f\<in>set names. CHR ''/'' \<notin> set f"
    and nodot: "\<forall>p\<in>set (audio_files_of d names) \<union> set (json_files_of d names).
                  CHR ''.'' \<notin> set (base_name p)"
    and match: "names_match (audio_files_of d names) (json_files_of d names)"
  shows "length (audio_files_of d names) = length (json_files_of d names) \<and>
         (\<forall>(a, j)\<in>set (zip (audio_files_of d names) (json_files_of d names)).
            base_name a = base_name j)"
proof -
  let ?A = "audio_files_of d names" and ?J = "json_files_of d names"
  let ?ga = "\<lambda>x. dir_prefix d @ x @ CHR ''.'' # ''wav''"
  let ?gj = "\<lambda>x. dir_prefix d @ x @ CHR ''.'' # ''json''"
  let ?BA = "map base_name ?A" and ?BJ = "map base_name ?J"
  have A: "?A = sort (map (join d) (filter (\<lambda>f. endswith f (CHR ''.'' # ''wav'')) names))"
    by (simp add: audio_files_of_def)
  have J: "?J = sort (map (join d) (filter (\<lambda>f. endswith f (CHR ''.'' # ''json'')) names))"
    by (simp add: json_files_of_def)
  have nodotA: "\<forall>p\<in>set ?A. CHR ''.'' \<notin> set (base_name p)"
    and nodotJ: "\<forall>p\<in>set ?J. CHR ''.'' \<notin> set (base_name p)"
    using nodot by auto
  note a = sorted_files_shape [OF dist slash _ _ A nodotA]
  note j = sorted_files_shape [OF dist slash _ _ J nodotJ]
  have shapeA: "?A = map ?ga ?BA" and distA: "distinct ?BA"
    and freeA: "\<forall>x\<in>set ?BA. CHR ''.'' \<notin> set x" and sortedA: "sorted (map ?ga ?BA)"
    using a by simp_all
  have shapeJ: "?J = map ?gj ?BJ" and distJ: "distinct ?BJ"
    and sortedJ: "sorted (map ?gj ?BJ)"
    using j by simp_all
  have sets: "set ?BA = set ?BJ"
    using match by (simp add: names_match_def)
  have "sorted_wrt (\<lambda>x y. ?ga x \<le> ?ga y) ?BA"
    using sortedA by (simp only: sorted_map)
  then have "sorted_wrt (\<lambda>x y. ?gj x \<le> ?gj y) ?BA"
  proof (rule sorted_wrt_mono_rel [rotated])
    fix x y assume "x \<in> set ?BA" "y \<in> set ?BA" "?ga x \<le> ?ga y"
    then show "?gj x \<le> ?gj y"
      using freeA same_order [of x y "dir_prefix d" "''wav''" "''json''"] by blast
  qed
  then have "sorted (map ?gj ?BA)"
    by (simp only: sorted_map)
  moreover have inj: "inj ?gj"
    by (rule injI) simp
  then have "distinct (map ?gj ?BA)"
    using distA by (simp add: distinct_map inj_on_def)
  moreover have "distinct (map ?gj ?BJ)"
    using distJ by (simp add: distinct_map inj_on_def)
  moreover have "set (map ?gj ?BA) = set (map ?gj ?BJ)"
    using sets by (simp only: set_map)
  ultimately have "map ?gj ?BA = map ?gj ?BJ"
    using sortedJ by (intro sorted_distinct_set_unique)
  then have same: "?BA = ?BJ"
    using inj by (simp only: inj_map_eq_map)
  then have len: "length ?A = length ?J"
    using length_map [of base_name ?A] length_map [of base_name ?J] by simp
  moreover have "base_name a = base_name b" if "(a, b) \<in> set (zip ?A ?J)" for a b
  proof -
    from that obtain i where i: "i < length ?A" "i < length ?J" "a = ?A ! i" "b = ?J ! i"
      by (auto simp: set_zip)
    then have "base_name a = ?BA ! i" and "base_name b = ?BJ ! i"
      by simp_all
    then show ?thesis
      using same by simp
  qed
  ultimately show ?thesis
    by blast
qed

theorem zip_pairs_same_base_name_witness:
  "names_match (audio_files_of ''d'' [''2000.json'', ''1000.wav'', ''2000.wav'', ''1000.json''])
      (json_files_of ''d'' [''2000.json'', ''1000.wav'', ''2000.wav'', ''1000.json''])
   \<and> length (audio_files_of ''d'' [''2000.json'', ''1000.wav'', ''2000.wav'', ''1000.json''])
       = length (json_files_of ''d'' [''2000.json'', ''1000.wav'', ''2000.wav'', ''1000.json''])
   \<and> list_all (\<lambda>(a, j). base_name a = base_name j)
        (zip (audio_files_of ''d'' [''2000.json'', ''1000.wav'', ''2000.wav'', ''1000.json''])
          (json_files_of ''d'' [''2000.json'', ''1000.wav'', ''2000.wav'', ''1000.json'']))"
proof -
  let ?ns = "[''2000.json'', ''1000.wav'', ''2000.wav'', ''1000.json'']"
  have h1: "distinct ?ns"
    by simp
  have h2: "\<forall>f\<in>set ?ns. CHR ''/'' \<notin> set f"
    by simp
  have h3: "\<forall>p\<in>set (audio_files_of ''d'' ?ns) \<union> set (json_files_of ''d'' ?ns).
      CHR ''.'' \<notin> set (base_name p)"
    by code_simp
  have h4: "names_match (audio_files_of ''d'' ?ns) (json_files_of ''d'' ?ns)"
    by code_simp
  from zip_pairs_same_base_name [OF h1 h2 h3 h4] h4 show ?thesis
    by (simp only: list_all_iff) blast
qed

section \<open>The command line\<close>

text \<open>
  C8. No flag is declared as required. The empty command line is parsed, and every flag
  is \<^verbatim>\<open>None\<close>.
\<close>

theorem parse_args_no_flags:
  "parse_args [] = Inr \<lparr>video_file = None, narration_dir = None, output_file = None\<rparr>"
  by (simp add: parse_args_def)

text \<open>
  C8, amended. Whichever of the three flags are given (each as \<^verbatim>\<open>--flag value\<close>, the
  value not starting with a dash), parsing succeeds: a flag that is given has its value,
  a flag that is missing is \<^verbatim>\<open>None\<close>.
\<close>

theorem parse_args_optional:
  assumes "plain v" and "plain n" and "plain outp"
  shows "parse_args (command_line v n outp)
         = Inr \<lparr>video_file = v, narration_dir = n, output_file = outp\<rparr>"
  using assms
  by (cases v; cases n; cases outp) (simp_all add: parse_args_def command_line_def plain_def)

theorem parse_args_optional_witness:
  "parse_args [''--video-file'', ''in.mp4'', ''--output-file'', ''out.mp4'']
   = Inr \<lparr>video_file = Some ''in.mp4'', narration_dir = None, output_file = Some ''out.mp4''\<rparr>"
proof -
  have "plain (Some ''in.mp4'')" and "plain None" and "plain (Some ''out.mp4'')"
    by (simp_all add: plain_def)
  from parse_args_optional [OF this] show ?thesis
    by (simp add: command_line_def)
qed

end
